theory Spec2Isabelle
  imports Complex_Main "HOL-Library.Sublist" "HOL-Library.Product_Lexorder"
begin

section \<open>linkedin\_job\_bot: keyword scoring, filtering and the application log\<close>

text \<open>
  A shallow embedding of \<^verbatim>\<open>linkedin_job_bot.py\<close>. Python \<^verbatim>\<open>str\<close> is \<^typ>\<open>string\<close>; the
  pattern \<^verbatim>\<open>WORD_RE\<close> only ever matches ASCII characters, so every character outside
  ASCII behaves as a separator, whatever its encoding. A finite Python \<^verbatim>\<open>float\<close> is the
  rational number it denotes, and each float operation of the source is the exact
  operation followed by rounding to the nearest binary64 value.
\<close>

subsection \<open>Characters of the pattern \<^verbatim>\<open>[a-zA-Z][a-zA-Z0-9+.#-]+\<close>\<close>

definition is_lower :: "char \<Rightarrow> bool" where
  "is_lower c = (97 \<le> (of_char c :: nat) \<and> (of_char c :: nat) \<le> 122)"

definition is_upper :: "char \<Rightarrow> bool" where
  "is_upper c = (65 \<le> (of_char c :: nat) \<and> (of_char c :: nat) \<le> 90)"

definition is_digit :: "char \<Rightarrow> bool" where
  "is_digit c = (48 \<le> (of_char c :: nat) \<and> (of_char c :: nat) \<le> 57)"

text \<open>The class \<^verbatim>\<open>[a-zA-Z]\<close>.\<close>

definition is_letter :: "char \<Rightarrow> bool" where
  "is_letter c = (is_lower c \<or> is_upper c)"

text \<open>The class \<^verbatim>\<open>[a-zA-Z0-9+.#-]\<close>.\<close>

definition is_cont :: "char \<Rightarrow> bool" where
  "is_cont c =
     (is_letter c \<or> is_digit c \<or> c = CHR ''+'' \<or> c = CHR ''.'' \<or> c = CHR ''#'' \<or> c = CHR ''-'')"

text \<open>
  The case change of ASCII letters: a character outside \<^verbatim>\<open>A-Z\<close> (respectively
  \<^verbatim>\<open>a-z\<close>) is left as it is. On text made of ASCII characters, as every match of
  the pattern is, \<open>lower\<close> is \<^verbatim>\<open>str.lower\<close> and \<open>upper\<close> is \<^verbatim>\<open>str.upper\<close>. Python's
  case mappings of other characters are not modelled; they can produce ASCII letters, as in
  \<^verbatim>\<open>"\xdf".upper() == "SS"\<close>.
\<close>

definition lower_char :: "char \<Rightarrow> char" where
  "lower_char c = (if is_upper c then char_of ((of_char c :: nat) + 32) else c)"

definition upper_char :: "char \<Rightarrow> char" where
  "upper_char c = (if is_lower c then char_of ((of_char c :: nat) - 32) else c)"

definition lower :: "string \<Rightarrow> string" where
  "lower s = map lower_char s"

definition upper :: "string \<Rightarrow> string" where
  "upper s = map upper_char s"

subsection \<open>\<^verbatim>\<open>WORD_RE.finditer\<close> and \<^verbatim>\<open>normalize_words\<close>\<close>

text \<open>A match object: its span and the text it matched (\<^verbatim>\<open>match.group(0)\<close>).\<close>

record match =
  start :: nat
  stop :: nat
  group0 :: string

text \<open>
  One attempt to match the pattern at the head of the remaining text: a letter, then the
  longest non-empty run of continuation characters (the \<^verbatim>\<open>+\<close> is greedy, and nothing
  follows it in the pattern, so there is no backtracking). The result is the matched text and
  what is left after it.
\<close>

definition match_word :: "string \<Rightarrow> (string \<times> string) option" where
  "match_word u =
     (case u of
        [] \<Rightarrow> None
      | c # cs \<Rightarrow>
          if is_letter c \<and> takeWhile is_cont cs \<noteq> []
          then Some (c # takeWhile is_cont cs, dropWhile is_cont cs)
          else None)"

text \<open>
  The scan of \<^verbatim>\<open>finditer\<close>: at offset \<open>k\<close>, try a match; after a match go on behind it,
  after a failure go on one character further.
\<close>

function finditer_from :: "nat \<Rightarrow> string \<Rightarrow> match list" where
  "finditer_from k [] = []"
| "finditer_from k (c # cs) =
     (case match_word (c # cs) of
        Some (w, rest) \<Rightarrow>
          \<lparr>start = k, stop = k + length w, group0 = w\<rparr> # finditer_from (k + length w) rest
      | None \<Rightarrow> finditer_from (k + 1) cs)"
  by pat_completeness auto
termination
proof (relation "measure (\<lambda>(k, u). length u)")
  show "wf (measure (\<lambda>(k, u). length u))" by simp
next
  fix k :: nat and c :: char and cs x2 w rest
  assume "match_word (c # cs) = Some x2" "(w, rest) = x2"
  then have "rest = dropWhile is_cont cs"
    by (auto simp: match_word_def split: if_splits)
  then show "((k + length w, rest), (k, c # cs)) \<in> measure (\<lambda>(k, u). length u)"
    by (simp add: length_dropWhile_le le_imp_less_Suc)
next
  fix k :: nat and c :: char and cs
  show "((k + 1, cs), (k, c # cs)) \<in> measure (\<lambda>(k, u). length u)" by simp
qed

definition finditer :: "string \<Rightarrow> match list" where
  "finditer text = finditer_from 0 text"

definition normalize_words :: "string \<Rightarrow> string list" where
  "normalize_words text = map (\<lambda>m. lower (group0 m)) (finditer text)"

subsection \<open>The words of the specification: maximal runs\<close>

text \<open>
  The specification's token: a run of the text that starts with an ASCII letter and is
  followed by continuation characters, maximal among the runs of the text. \<open>slice t i j\<close> is
  Python's \<^verbatim>\<open>t[i:j]\<close> for \<open>i \<le> j \<le> len(t)\<close>.
\<close>

definition slice :: "string \<Rightarrow> nat \<Rightarrow> nat \<Rightarrow> string" where
  "slice t i j = take (j - i) (drop i t)"

definition is_word :: "string \<Rightarrow> bool" where
  "is_word w = (case w of [] \<Rightarrow> False | c # r \<Rightarrow> is_letter c \<and> r \<noteq> [] \<and> list_all is_cont r)"

definition word_at :: "string \<Rightarrow> nat \<Rightarrow> nat \<Rightarrow> bool" where
  "word_at t i j = (i < j \<and> j \<le> length t \<and> is_word (slice t i j))"

definition maximal_run :: "string \<Rightarrow> nat \<Rightarrow> nat \<Rightarrow> bool" where
  "maximal_run t i j =
     (word_at t i j \<and>
      (\<forall>i' \<in> {..i}. \<forall>j' \<in> {j..length t}. word_at t i' j' \<longrightarrow> i' = i \<and> j' = j))"

text \<open>
  The maximal runs of a text as a list of spans \<open>(i, j)\<close>, in the order of their position
  in the text, and the span of a match.
\<close>

definition maximal_runs :: "string \<Rightarrow> (nat \<times> nat) list" where
  "maximal_runs t =
     filter (\<lambda>(i, j). maximal_run t i j) (List.product [0..<length t] [0..<Suc (length t)])"

definition span :: "match \<Rightarrow> nat \<times> nat" where
  "span m = (start m, stop m)"

text \<open>
  The invariant of the scan at offset \<open>k\<close>: every letter before \<open>k\<close> is cut off from \<open>k\<close>
  by the end of the text or by a character that is not a continuation character, so that
  no run that starts before \<open>k\<close> reaches beyond \<open>k\<close>.
\<close>

definition blocked :: "string \<Rightarrow> nat \<Rightarrow> bool" where
  "blocked t k =
     (\<forall>i' < k. is_letter (t ! i') \<longrightarrow>
        (\<exists>l. i' < l \<and> l \<le> k \<and> (l = length t \<or> \<not> is_cont (t ! l))))"

subsection \<open>Python floats\<close>

text \<open>
  A float is not-a-number, an infinity, or a finite value, which is a rational number.
  (The two zeros are one value here; the program never tells them apart.)
\<close>

datatype pyfloat = NaN | NegInf | Finite rat | PosInf

text \<open>The comparisons \<^verbatim>\<open><=\<close> and \<^verbatim>\<open>>=\<close> of floats: false as soon as one side is NaN.\<close>

fun float_le :: "pyfloat \<Rightarrow> pyfloat \<Rightarrow> bool" where
  "float_le NaN b = False"
| "float_le a NaN = False"
| "float_le NegInf b = True"
| "float_le a PosInf = True"
| "float_le (Finite x) (Finite y) = (x \<le> y)"
| "float_le (Finite x) NegInf = False"
| "float_le PosInf b = False"

definition float_ge :: "pyfloat \<Rightarrow> pyfloat \<Rightarrow> bool" where
  "float_ge a b = float_le b a"

text \<open>Rounding to the nearest integer, a tie going to the even neighbour.\<close>

definition round_half_even :: "rat \<Rightarrow> int" where
  "round_half_even x =
     (let f = \<lfloor>x\<rfloor>; r = x - of_int f
      in if r < 1 / 2 then f else if 1 / 2 < r then f + 1 else if even f then f else f + 1)"

text \<open>
  The binary64 grid around a positive \<open>q\<close> has the spacing \<open>2 ^ -s\<close> for the least \<open>s\<close> with
  \<open>2 ^ 52 \<le> q * 2 ^ s\<close> (a 53-bit significand), and never less than \<open>2 ^ -1074\<close> (the
  subnormal numbers).
\<close>

function find_shift :: "rat \<Rightarrow> nat \<Rightarrow> nat" where
  "find_shift q s = (if 2 ^ 52 \<le> q * 2 ^ s \<or> 1074 \<le> s then s else find_shift q (Suc s))"
  by pat_completeness auto
termination
  by (relation "measure (\<lambda>(q, s). 1074 - s)") auto

declare find_shift.simps [simp del]

text \<open>
  The binary64 value nearest to \<open>q\<close>, ties to even: what an IEEE-754 operation returns for
  the exact result \<open>q\<close>. It is written for \<open>\<bar>q\<bar> < 2 ^ 53\<close>; this program computes no value
  above 100.
\<close>

definition to_double :: "rat \<Rightarrow> rat" where
  "to_double q =
     (if q = 0 then 0
      else let a = \<bar>q\<bar>; s = find_shift a 0
           in sgn q * (of_int (round_half_even (a * 2 ^ s)) / 2 ^ s))"

text \<open>
  \<^verbatim>\<open>a / b\<close> on two non-negative \<^verbatim>\<open>int\<close>s (correctly rounded in CPython), \<^verbatim>\<open>x * y\<close> on two
  floats, and \<^verbatim>\<open>round(x, 2)\<close>, which rounds the exact value of the float \<open>x\<close> to two
  decimals, half to even, and returns the float nearest to that decimal.
\<close>

definition py_truediv :: "nat \<Rightarrow> nat \<Rightarrow> rat" where
  "py_truediv a b = to_double (of_nat a / of_nat b)"

definition py_mul :: "rat \<Rightarrow> rat \<Rightarrow> rat" where
  "py_mul x y = to_double (x * y)"

definition py_round2 :: "rat \<Rightarrow> rat" where
  "py_round2 x = to_double (of_int (round_half_even (x * 100)) / 100)"

subsection \<open>\<^verbatim>\<open>ats_score\<close>\<close>

text \<open>
  The division is reached only behind the guard \<^verbatim>\<open>if not job_words\<close>, so its divisor is
  never zero.
\<close>

definition ats_score :: "string \<Rightarrow> string \<Rightarrow> pyfloat" where
  "ats_score resume_text job_description =
     (let resume_words = set (normalize_words resume_text);
          job_words = set (normalize_words job_description)
      in if job_words = {} then Finite 0
         else let matches = resume_words \<inter> job_words
              in Finite (py_round2 (py_mul (py_truediv (card matches) (card job_words)) 100)))"

text \<open>
  The formula of the specification: the exact quotient, times 100, rounded to two decimals
  (half to even, as Python's \<^verbatim>\<open>round\<close> does).
\<close>

definition exact_percentage :: "nat \<Rightarrow> nat \<Rightarrow> rat" where
  "exact_percentage m n = 100 * of_nat m / of_nat n"

definition round2_exact :: "rat \<Rightarrow> rat" where
  "round2_exact x = of_int (round_half_even (x * 100)) / 100"

subsection \<open>\<^verbatim>\<open>Job\<close> and \<^verbatim>\<open>filter_jobs_by_score\<close>\<close>

text \<open>
  A job whose six fields are text, as the dataclass declares them. The filter reads the
  description and the logger writes the five other fields; what the loader stores in a
  field, which need not be text, is \<open>loaded_job\<close> below.
\<close>

record Job =
  job_id :: string
  title :: string
  company :: string
  location :: string
  description :: string
  url :: string

text \<open>The loop of \<^verbatim>\<open>filter_jobs_by_score\<close>, with \<^verbatim>\<open>results\<close> as its accumulator.\<close>

fun filter_loop :: "(Job \<times> pyfloat) list \<Rightarrow> Job list \<Rightarrow> string \<Rightarrow> pyfloat \<Rightarrow> (Job \<times> pyfloat) list" where
  "filter_loop results [] resume_text threshold = results"
| "filter_loop results (job # jobs) resume_text threshold =
     (let score = ats_score resume_text (description job)
      in filter_loop (if float_ge score threshold then results @ [(job, score)] else results)
           jobs resume_text threshold)"

definition filter_jobs_by_score :: "Job list \<Rightarrow> string \<Rightarrow> pyfloat \<Rightarrow> (Job \<times> pyfloat) list" where
  "filter_jobs_by_score jobs resume_text threshold = filter_loop [] jobs resume_text threshold"

subsection \<open>\<^verbatim>\<open>load_jobs\<close>\<close>

text \<open>
  A value of the parsed JSON: \<^verbatim>\<open>None\<close>, a \<^verbatim>\<open>bool\<close>, an \<^verbatim>\<open>int\<close>, a \<^verbatim>\<open>str\<close>, or a value of
  another kind (a \<^verbatim>\<open>float\<close>, a \<^verbatim>\<open>list\<close> or a \<^verbatim>\<open>dict\<close>). The program does two things
  with a value: it takes \<^verbatim>\<open>str()\<close> of it, and it hands it to the pattern, which accepts
  a \<^verbatim>\<open>str\<close> only. A value of another kind is therefore given by the text that \<^verbatim>\<open>str()\<close>
  returns for it.
\<close>

datatype json = JNull | JBool bool | JInt int | JStr string | JOther string

definition digit_char :: "nat \<Rightarrow> char" where
  "digit_char d = char_of (48 + d)"

function show_nat :: "nat \<Rightarrow> string" where
  "show_nat n = (if n < 10 then [digit_char n] else show_nat (n div 10) @ [digit_char (n mod 10)])"
  by pat_completeness auto
termination
  by (relation "measure (\<lambda>n. n)") auto

declare show_nat.simps [simp del]

definition show_int :: "int \<Rightarrow> string" where
  "show_int i = (if i < 0 then CHR ''-'' # show_nat (nat (- i)) else show_nat (nat i))"

text \<open>\<^verbatim>\<open>str(v)\<close>, which is also what an f-string and \<^verbatim>\<open>%s\<close> write for \<open>v\<close>.\<close>

fun py_str :: "json \<Rightarrow> string" where
  "py_str JNull = ''None''"
| "py_str (JBool b) = (if b then ''True'' else ''False'')"
| "py_str (JInt i) = show_int i"
| "py_str (JStr s) = s"
| "py_str (JOther s) = s"

text \<open>
  One record of the jobs file: a \<^verbatim>\<open>dict\<close> from keys to values. \<^verbatim>\<open>item.get(key, default)\<close>
  is the value at the key, or the default when the record has no such key.
\<close>

type_synonym item = "string \<rightharpoonup> json"

definition dict_get :: "item \<Rightarrow> string \<Rightarrow> json \<Rightarrow> json" where
  "dict_get item key dflt = (case item key of None \<Rightarrow> dflt | Some v \<Rightarrow> v)"

text \<open>
  The \<^verbatim>\<open>Job\<close> object as the loader builds it. The dataclass declares its fields as
  \<^verbatim>\<open>str\<close>, but nothing checks that: only the value of \<^verbatim>\<open>id\<close> goes through \<^verbatim>\<open>str()\<close>, and
  the five other fields hold the values of the record as they are.
\<close>

record loaded_job =
  l_job_id :: string
  l_title :: json
  l_company :: json
  l_location :: json
  l_description :: json
  l_url :: json

definition job_of_item :: "item \<Rightarrow> loaded_job" where
  "job_of_item item =
     \<lparr>l_job_id = py_str (dict_get item ''id'' (JStr [])),
      l_title = dict_get item ''title'' (JStr []),
      l_company = dict_get item ''company'' (JStr []),
      l_location = dict_get item ''location'' (JStr []),
      l_description = dict_get item ''description'' (JStr []),
      l_url = dict_get item ''url'' (JStr [])\<rparr>"

text \<open>The loop of \<^verbatim>\<open>load_jobs\<close> over the parsed data, \<^verbatim>\<open>jobs\<close> being its accumulator.\<close>

fun load_loop :: "loaded_job list \<Rightarrow> item list \<Rightarrow> loaded_job list" where
  "load_loop jobs [] = jobs"
| "load_loop jobs (item # data) = load_loop (jobs @ [job_of_item item]) data"

definition load_jobs :: "item list \<Rightarrow> loaded_job list" where
  "load_jobs data = load_loop [] data"

text \<open>
  What the rest of a pass does with a loaded job. The filter hands its description to
  \<^verbatim>\<open>WORD_RE.finditer\<close>, which raises \<^verbatim>\<open>TypeError\<close> unless it is a \<^verbatim>\<open>str\<close>. The four other
  fields only ever reach the f-string of the logger (and \<^verbatim>\<open>%s\<close> of the console log), which
  write \<^verbatim>\<open>str()\<close> of them. So a loaded job is, for the filter and the logger, the \<open>Job\<close>
  with that description and these texts, or the cause of a \<^verbatim>\<open>TypeError\<close>. The filter goes
  through all the jobs before anything is logged, so the first description that is not a
  \<^verbatim>\<open>str\<close> ends the pass before it writes.
\<close>

datatype error = TypeError

definition as_job :: "loaded_job \<Rightarrow> error + Job" where
  "as_job j =
     (case l_description j of
        JStr d \<Rightarrow>
          Inr \<lparr>job_id = l_job_id j, title = py_str (l_title j), company = py_str (l_company j),
               location = py_str (l_location j), description = d, url = py_str (l_url j)\<rparr>
      | _ \<Rightarrow> Inl TypeError)"

fun seen_jobs :: "loaded_job list \<Rightarrow> error + Job list" where
  "seen_jobs [] = Inr []"
| "seen_jobs (j # js) =
     (case as_job j of
        Inl e \<Rightarrow> Inl e
      | Inr x \<Rightarrow> (case seen_jobs js of Inl e \<Rightarrow> Inl e | Inr xs \<Rightarrow> Inr (x # xs)))"

subsection \<open>\<^verbatim>\<open>log_application\<close>, \<^verbatim>\<open>apply_to_jobs\<close> and \<^verbatim>\<open>run_once\<close>\<close>

text \<open>
  The format \<^verbatim>\<open>{score:.2f}\<close>: the exact value of the float, rounded to two decimals (half to
  even), with all its integer digits, a point and two digits.
\<close>

definition format_2f :: "pyfloat \<Rightarrow> string" where
  "format_2f x =
     (case x of
        NaN \<Rightarrow> ''nan''
      | NegInf \<Rightarrow> ''-inf''
      | PosInf \<Rightarrow> ''inf''
      | Finite q \<Rightarrow>
          (let k = nat (round_half_even (\<bar>q\<bar> * 100))
           in (if q < 0 then ''-'' else []) @ show_nat (k div 100) @ ''.''
              @ [digit_char (k mod 100 div 10), digit_char (k mod 10)]))"

definition newline :: char where
  "newline = CHR 0x0A"

text \<open>The line that \<^verbatim>\<open>log_application\<close> builds.\<close>

definition log_entry :: "string \<Rightarrow> Job \<Rightarrow> pyfloat \<Rightarrow> string" where
  "log_entry timestamp job score =
     timestamp @ '' | APPLIED | '' @ job_id job @ '' | '' @ title job @ '' | '' @ company job
     @ '' | '' @ location job @ '' | '' @ format_2f score @ '' | '' @ url job @ [newline]"

text \<open>
  The world that the logger changes: the content of every file, by path, and the number of
  times the clock has been read. The clock is a parameter: \<open>clock i\<close> is the text of
  \<^verbatim>\<open>datetime.utcnow().isoformat()\<close> at its \<open>i\<close>-th reading. Opening with mode \<^verbatim>\<open>"a"\<close> creates
  a file that is not there; a log file that cannot be opened is outside the model.
  (\<^verbatim>\<open>logging.info\<close> writes to the console, which is not part of this world.)
\<close>

record world =
  files :: "string \<rightharpoonup> string"
  ticks :: nat

definition file_content :: "world \<Rightarrow> string \<Rightarrow> string" where
  "file_content w path = (case files w path of None \<Rightarrow> [] | Some old \<Rightarrow> old)"

definition log_application :: "(nat \<Rightarrow> string) \<Rightarrow> string \<Rightarrow> Job \<Rightarrow> pyfloat \<Rightarrow> world \<Rightarrow> world" where
  "log_application clock log_path job score w =
     (let timestamp = clock (ticks w);
          entry = log_entry timestamp job score
      in w\<lparr>files := (files w)(log_path \<mapsto> file_content w log_path @ entry),
            ticks := Suc (ticks w)\<rparr>)"

fun apply_to_jobs :: "(nat \<Rightarrow> string) \<Rightarrow> (Job \<times> pyfloat) list \<Rightarrow> string \<Rightarrow> world \<Rightarrow> world" where
  "apply_to_jobs clock [] log_path w = w"
| "apply_to_jobs clock ((job, score) # rest) log_path w =
     apply_to_jobs clock rest log_path (log_application clock log_path job score w)"

text \<open>
  The arguments of one pass, with the two input files already read: the text of the resume
  and the parsed records of the jobs file.
\<close>

record args =
  arg_resume :: string
  arg_jobs :: "item list"
  arg_threshold :: pyfloat
  arg_log :: string

definition run_once :: "(nat \<Rightarrow> string) \<Rightarrow> args \<Rightarrow> world \<Rightarrow> error + world" where
  "run_once clock a w =
     (case seen_jobs (load_jobs (arg_jobs a)) of
        Inl e \<Rightarrow> Inl e
      | Inr jobs \<Rightarrow>
          (let eligible_jobs = filter_jobs_by_score jobs (arg_resume a) (arg_threshold a)
           in Inr (if eligible_jobs = [] then w
                   else apply_to_jobs clock eligible_jobs (arg_log a) w)))"

text \<open>
  The world after one pass: the world that \<open>run_once\<close> returns, or the world as it was
  when the pass raised, which it does before it writes.
\<close>

definition after_pass :: "(nat \<Rightarrow> string) \<Rightarrow> args \<Rightarrow> world \<Rightarrow> world" where
  "after_pass clock a w = (case run_once clock a w of Inl e \<Rightarrow> w | Inr w' \<Rightarrow> w')"

subsection \<open>Texts built from words\<close>

text \<open>Each word followed by one space.\<close>

definition join_words :: "string list \<Rightarrow> string" where
  "join_words ws = concat (map (\<lambda>w. w @ '' '') ws)"

text \<open>The words \<^verbatim>\<open>ab\<close>, \<^verbatim>\<open>abb\<close>, \<^verbatim>\<open>abbb\<close>, ...: \<open>abc_word i\<close> is \<^verbatim>\<open>"a" + "b" * (i + 1)\<close>.\<close>

definition abc_word :: "nat \<Rightarrow> string" where
  "abc_word i = CHR ''a'' # replicate (Suc i) (CHR ''b'')"

definition abc_text :: "nat \<Rightarrow> string" where
  "abc_text n = join_words (map abc_word [0..<n])"

subsection \<open>The entries of one batch\<close>

text \<open>
  The lines that \<^verbatim>\<open>apply_to_jobs\<close> writes, one for each pair, when the clock has been read
  \<open>t\<close> times before; and the same lines without their timestamps.
\<close>

fun batch_entries :: "(nat \<Rightarrow> string) \<Rightarrow> nat \<Rightarrow> (Job \<times> pyfloat) list \<Rightarrow> string list" where
  "batch_entries clock t [] = []"
| "batch_entries clock t ((job, score) # rest) =
     log_entry (clock t) job score # batch_entries clock (Suc t) rest"

definition entry_bodies :: "(Job \<times> pyfloat) list \<Rightarrow> string list" where
  "entry_bodies pairs = map (\<lambda>(job, score). log_entry [] job score) pairs"

text \<open>The pairs that one pass hands to \<^verbatim>\<open>apply_to_jobs\<close>: none when the filter raises.\<close>

definition eligible :: "args \<Rightarrow> (Job \<times> pyfloat) list" where
  "eligible a =
     (case seen_jobs (load_jobs (arg_jobs a)) of
        Inl e \<Rightarrow> []
      | Inr jobs \<Rightarrow> filter_jobs_by_score jobs (arg_resume a) (arg_threshold a))"

subsection \<open>Three postings used as examples\<close>

definition job_a :: Job where
  "job_a = \<lparr>job_id = ''1'', title = ''Dev'', company = ''Acme'', location = ''Remote'',
            description = ''py'', url = ''http://x/1''\<rparr>"

definition job_b :: Job where
  "job_b = \<lparr>job_id = ''2'', title = ''Ops'', company = ''Acme'', location = ''Remote'',
            description = ''py go'', url = ''http://x/2''\<rparr>"

definition job_c :: Job where
  "job_c = \<lparr>job_id = ''3'', title = ''QA'', company = ''Acme'', location = ''Remote'',
            description = [], url = ''http://x/3''\<rparr>"

subsection \<open>Records, arguments and a world used as examples\<close>

definition item_a :: item where
  "item_a = [''id'' \<mapsto> JInt 1, ''title'' \<mapsto> JStr ''Dev'', ''company'' \<mapsto> JStr ''Acme'',
             ''location'' \<mapsto> JStr ''Remote'', ''description'' \<mapsto> JStr ''py'',
             ''url'' \<mapsto> JStr ''http://x/1'']"

definition item_blank :: item where
  "item_blank = Map.empty"

text \<open>The record \<^verbatim>\<open>{"id": 1, "title": 5, "description": null}\<close>.\<close>

definition item_bad :: item where
  "item_bad = [''id'' \<mapsto> JInt 1, ''title'' \<mapsto> JInt 5, ''description'' \<mapsto> JNull]"

definition job_blank :: Job where
  "job_blank = \<lparr>job_id = [], title = [], company = [], location = [], description = [], url = []\<rparr>"

definition job_nl :: Job where
  "job_nl = \<lparr>job_id = ''7'', title = ''Dev'' @ [newline] @ ''Ops'', company = ''Acme'',
             location = ''Remote'', description = ''py'', url = ''http://x/7''\<rparr>"

definition clock0 :: "nat \<Rightarrow> string" where
  "clock0 i = ''t''"

definition world0 :: world where
  "world0 = \<lparr>files = Map.empty, ticks = 0\<rparr>"

definition args0 :: args where
  "args0 = \<lparr>arg_resume = ''py'', arg_jobs = [item_a, item_blank], arg_threshold = Finite 80,
             arg_log = ''applications.log''\<rparr>"

text \<open>The same arguments with a jobs file whose second record is \<open>item_bad\<close>.\<close>

definition args_bad :: args where
  "args_bad = args0\<lparr>arg_jobs := [item_a, item_bad]\<rparr>"

text \<open>The text \<^verbatim>\<open>"Ma\xdf"\<close>: \<^verbatim>\<open>Ma\<close> and the sharp s, which is not an ASCII character.\<close>

definition sharp_s_text :: string where
  "sharp_s_text = ''Ma'' @ [CHR 0xDF]"

section \<open>Properties of the tokenizer\<close>

lemma is_letter_cont: "is_letter c \<Longrightarrow> is_cont c"
  by (simp add: is_cont_def)

lemma takeWhile_sep: "\<not> P sep \<Longrightarrow> takeWhile P (cs @ sep # v) = takeWhile P cs"
  by (induction cs) simp_all

lemma dropWhile_sep: "\<not> P sep \<Longrightarrow> dropWhile P (cs @ sep # v) = dropWhile P cs @ sep # v"
  by (induction cs) simp_all

lemma match_word_SomeD:
  assumes "match_word u = Some (w, rest)"
  shows "u = w @ rest" and "is_word w" and "2 \<le> length w"
    and "rest = [] \<or> \<not> is_cont (hd rest)"
    and "w = hd u # takeWhile is_cont (tl u)" and "rest = dropWhile is_cont (tl u)"
    and "is_letter (hd u)"
proof -
  obtain c cs where u: "u = c # cs" and c: "is_letter c" and ne: "takeWhile is_cont cs \<noteq> []"
    and w: "w = c # takeWhile is_cont cs" and r: "rest = dropWhile is_cont cs"
    using assms by (cases u) (auto simp: match_word_def split: if_splits)
  show "u = w @ rest" by (simp add: u w r)
  have "\<forall>x \<in> set (takeWhile is_cont cs). is_cont x"
    using set_takeWhileD by fastforce
  then show "is_word w"
    using c ne by (simp add: w is_word_def list_all_iff)
  show "2 \<le> length w"
    using ne by (cases "takeWhile is_cont cs") (simp_all add: w)
  show "rest = [] \<or> \<not> is_cont (hd rest)"
    unfolding r using hd_dropWhile[of is_cont cs] by blast
  show "w = hd u # takeWhile is_cont (tl u)" by (simp add: u w)
  show "rest = dropWhile is_cont (tl u)" by (simp add: u r)
  show "is_letter (hd u)" by (simp add: u c)
qed

lemma match_word_NoneD:
  assumes "match_word (c # cs) = None"
  shows "\<not> is_letter c \<or> cs = [] \<or> \<not> is_cont (hd cs)"
  using assms by (cases cs) (auto simp: match_word_def split: if_splits)

lemma finditer_from_Some:
  "match_word (c # cs) = Some (w, rest) \<Longrightarrow>
     finditer_from k (c # cs) =
       \<lparr>start = k, stop = k + length w, group0 = w\<rparr> # finditer_from (k + length w) rest"
  by simp

lemma finditer_from_None:
  "match_word (c # cs) = None \<Longrightarrow> finditer_from k (c # cs) = finditer_from (Suc k) cs"
  by simp

lemma finditer_from_group0:
  "m \<in> set (finditer_from k u) \<Longrightarrow>
     is_word (group0 m) \<and> 2 \<le> length (group0 m) \<and> stop m = start m + length (group0 m)
     \<and> k \<le> start m \<and> stop m \<le> k + length u"
proof (induction k u rule: finditer_from.induct)
  case (1 k)
  then show ?case by simp
next
  case (2 k c cs)
  show ?case
  proof (cases "match_word (c # cs)")
    case None
    from "2.prems" have "m \<in> set (finditer_from (k + 1) cs)"
      by (simp add: None)
    from "2.IH"(1)[OF None this] show ?thesis by simp
  next
    case (Some p)
    obtain w rest where p: "p = (w, rest)" by (cases p)
    have mw: "match_word (c # cs) = Some (w, rest)" using Some p by simp
    have len: "length (c # cs) = length w + length rest"
      using match_word_SomeD(1)[OF mw] length_append[of w rest] by simp
    from "2.prems"
    consider "m = \<lparr>start = k, stop = k + length w, group0 = w\<rparr>"
      | "m \<in> set (finditer_from (k + length w) rest)"
      by (auto simp: finditer_from_Some[OF mw] simp del: finditer_from.simps)
    then show ?thesis
    proof cases
      case 1
      then show ?thesis
        using match_word_SomeD(2,3)[OF mw] len by simp
    next
      case 2
      from "2.IH"(2)[OF Some p[symmetric] 2] len show ?thesis by simp
    qed
  qed
qed

lemma lower_length: "length (lower s) = length s"
  by (simp add: lower_def)

lemma normalize_words_length_ge2: "w \<in> set (normalize_words text) \<Longrightarrow> 2 \<le> length w"
  by (auto simp: normalize_words_def finditer_def lower_length dest: finditer_from_group0)

lemma finditer_from_sep:
  "\<not> is_cont sep \<Longrightarrow>
     finditer_from k (u @ sep # v) = finditer_from k u @ finditer_from (Suc (k + length u)) v"
proof (induction k u rule: finditer_from.induct)
  case (1 k)
  have "match_word (sep # v) = None"
    using 1 is_letter_cont[of sep] by (auto simp: match_word_def)
  then show ?case by simp
next
  case (2 k c cs)
  have tw: "takeWhile is_cont (cs @ sep # v) = takeWhile is_cont cs"
    using "2.prems" by (rule takeWhile_sep)
  have dw: "dropWhile is_cont (cs @ sep # v) = dropWhile is_cont cs @ sep # v"
    using "2.prems" by (rule dropWhile_sep)
  show ?case
  proof (cases "match_word (c # cs)")
    case None
    then have n': "match_word (c # cs @ sep # v) = None"
      using tw by (auto simp: match_word_def split: if_splits)
    have "finditer_from k ((c # cs) @ sep # v) = finditer_from (Suc k) (cs @ sep # v)"
      using finditer_from_None[OF n'] by simp
    also have "\<dots> = finditer_from (k + 1) cs @ finditer_from (Suc (k + 1 + length cs)) v"
      using "2.IH"(1)[OF None "2.prems"] by simp
    finally show ?thesis using finditer_from_None[OF None] by simp
  next
    case (Some p)
    obtain w rest where p: "p = (w, rest)" by (cases p)
    have mw: "match_word (c # cs) = Some (w, rest)" using Some p by simp
    have len: "length (c # cs) = length w + length rest"
      using match_word_SomeD(1)[OF mw] length_append[of w rest] by simp
    have mw': "match_word (c # cs @ sep # v) = Some (w, rest @ sep # v)"
      using mw tw dw by (auto simp: match_word_def split: if_splits)
    have "finditer_from k ((c # cs) @ sep # v) =
        \<lparr>start = k, stop = k + length w, group0 = w\<rparr> # finditer_from (k + length w) (rest @ sep # v)"
      using finditer_from_Some[OF mw'] by simp
    also have "finditer_from (k + length w) (rest @ sep # v) =
        finditer_from (k + length w) rest @ finditer_from (Suc (k + length w + length rest)) v"
      by (rule "2.IH"(2)[OF Some p[symmetric] "2.prems"])
    finally show ?thesis
      using finditer_from_Some[OF mw] len by (simp add: add.assoc)
  qed
qed


lemma match_word_single: "match_word [c] = None"
  by (simp add: match_word_def)

lemma normalize_words_sep_single:
  assumes "\<not> is_cont sep"
  shows "normalize_words (text @ [sep, c]) = normalize_words text"
proof -
  have "finditer_from (Suc (0 + length text)) [c] = []"
    using finditer_from_None[OF match_word_single] by simp
  then show ?thesis
    using finditer_from_sep[OF assms, of 0 "text" "[c]"] by (simp add: normalize_words_def finditer_def)
qed

text \<open>
  C10. Every token of the normalizer has at least two characters: the pattern asks for a
  letter and then at least one more character. A text that is one character long has no
  token, and a one-character word appended to a text (behind a separator) leaves the tokens
  of the text, and therefore the score on either side, as they were.
\<close>

theorem normalize_words_min_length:
  "(\<forall>w \<in> set (normalize_words text). 2 \<le> length w)
   \<and> normalize_words [c] = []
   \<and> (\<not> is_cont sep \<longrightarrow>
        normalize_words (text @ [sep, c]) = normalize_words text
        \<and> ats_score (text @ [sep, c]) other = ats_score text other
        \<and> ats_score other (text @ [sep, c]) = ats_score other text)"
proof -
  have "normalize_words [c] = []"
    using finditer_from_None[OF match_word_single, of 0] by (simp add: normalize_words_def finditer_def)
  moreover have "\<forall>w \<in> set (normalize_words text). 2 \<le> length w"
    using normalize_words_length_ge2 by blast
  ultimately show ?thesis
    by (simp add: normalize_words_sep_single ats_score_def)
qed

theorem normalize_words_min_length_witness:
  "\<not> is_cont (CHR '' '')
   \<and> normalize_words ''I am a dev'' = [''am'', ''dev'']
   \<and> list_all (\<lambda>w. 2 \<le> length w) (normalize_words ''I am a dev'')
   \<and> normalize_words (''go'' @ [CHR '' '', CHR ''x'']) = normalize_words ''go''"
proof -
  have sep: "\<not> is_cont (CHR '' '')" by code_simp
  have "normalize_words (''go'' @ [CHR '' '', CHR ''x'']) = normalize_words ''go''"
    using normalize_words_min_length[of "''go''" "CHR ''x''" "CHR '' ''"] sep by blast
  moreover have "list_all (\<lambda>w. 2 \<le> length w) (normalize_words ''I am a dev'')"
    using normalize_words_min_length[of "''I am a dev''"] by (simp add: list_all_iff)
  moreover have "normalize_words ''I am a dev'' = [''am'', ''dev'']" by code_simp
  ultimately show ?thesis using sep by simp
qed

section \<open>The tokens are the maximal runs\<close>

lemma is_word_nth:
  "is_word w \<longleftrightarrow>
     2 \<le> length w \<and> is_letter (w ! 0) \<and> (\<forall>x. 0 < x \<and> x < length w \<longrightarrow> is_cont (w ! x))"
proof (cases w)
  case Nil
  then show ?thesis by (simp add: is_word_def)
next
  case (Cons c r)
  have "list_all is_cont r \<longleftrightarrow> (\<forall>x. 0 < x \<and> x < Suc (length r) \<longrightarrow> is_cont ((c # r) ! x))"
  proof
    assume a: "list_all is_cont r"
    show "\<forall>x. 0 < x \<and> x < Suc (length r) \<longrightarrow> is_cont ((c # r) ! x)"
    proof (intro allI impI)
      fix x assume "0 < x \<and> x < Suc (length r)"
      then obtain y where "x = Suc y" "y < length r" by (cases x) auto
      then show "is_cont ((c # r) ! x)" using a by (simp add: list_all_length)
    qed
  next
    assume b: "\<forall>x. 0 < x \<and> x < Suc (length r) \<longrightarrow> is_cont ((c # r) ! x)"
    show "list_all is_cont r"
      unfolding list_all_length
    proof (intro allI impI)
      fix y assume "y < length r"
      then have "is_cont ((c # r) ! Suc y)" using b by blast
      then show "is_cont (r ! y)" by simp
    qed
  qed
  moreover have "r \<noteq> [] \<longleftrightarrow> 2 \<le> length (c # r)" by (cases r) simp_all
  ultimately show ?thesis by (simp add: Cons is_word_def) blast
qed

lemma slice_length: "j \<le> length t \<Longrightarrow> length (slice t i j) = j - i"
  by (simp add: slice_def)

lemma slice_nth: "j \<le> length t \<Longrightarrow> x < j - i \<Longrightarrow> slice t i j ! x = t ! (i + x)"
  by (simp add: slice_def)

lemma word_at_nth:
  "word_at t i j \<longleftrightarrow>
     Suc i < j \<and> j \<le> length t \<and> is_letter (t ! i)
     \<and> (\<forall>l. i < l \<and> l < j \<longrightarrow> is_cont (t ! l))"
proof (cases "i < j \<and> j \<le> length t")
  case False
  then show ?thesis by (auto simp: word_at_def)
next
  case True
  then have ij: "i < j" and j: "j \<le> length t" by simp_all
  have len: "length (slice t i j) = j - i" using j by (rule slice_length)
  have n0: "slice t i j ! 0 = t ! i" using slice_nth[OF j, of 0 i] ij by simp
  have "(\<forall>x. 0 < x \<and> x < j - i \<longrightarrow> is_cont (slice t i j ! x))
      \<longleftrightarrow> (\<forall>l. i < l \<and> l < j \<longrightarrow> is_cont (t ! l))"
  proof
    assume a: "\<forall>x. 0 < x \<and> x < j - i \<longrightarrow> is_cont (slice t i j ! x)"
    show "\<forall>l. i < l \<and> l < j \<longrightarrow> is_cont (t ! l)"
    proof (intro allI impI)
      fix l assume l: "i < l \<and> l < j"
      then have "0 < l - i \<and> l - i < j - i" by auto
      then have "is_cont (slice t i j ! (l - i))" using a by blast
      moreover have "slice t i j ! (l - i) = t ! (i + (l - i))"
        using l by (intro slice_nth[OF j]) auto
      ultimately show "is_cont (t ! l)" using l by simp
    qed
  next
    assume b: "\<forall>l. i < l \<and> l < j \<longrightarrow> is_cont (t ! l)"
    show "\<forall>x. 0 < x \<and> x < j - i \<longrightarrow> is_cont (slice t i j ! x)"
    proof (intro allI impI)
      fix x assume x: "0 < x \<and> x < j - i"
      then have "is_cont (t ! (i + x))" using b by (simp add: less_diff_conv add.commute)
      then show "is_cont (slice t i j ! x)" using x by (simp add: slice_nth[OF j])
    qed
  qed
  then show ?thesis
    using ij j by (auto simp: word_at_def is_word_nth len n0)
qed

lemma maximal_run_iff:
  "maximal_run t i j \<longleftrightarrow>
     word_at t i j \<and> (\<forall>i' j'. i' \<le> i \<and> j \<le> j' \<and> word_at t i' j' \<longrightarrow> i' = i \<and> j' = j)"
proof -
  have wl: "\<And>i' j'. word_at t i' j' \<Longrightarrow> j' \<le> length t" by (simp add: word_at_def)
  show ?thesis
    unfolding maximal_run_def by (fastforce dest: wl)
qed

lemma drop_ConsD:
  assumes "drop k t = c # cs"
  shows "k < length t" and "t ! k = c" and "cs = drop (Suc k) t"
proof -
  show k: "k < length t" using assms by (cases "k < length t") simp_all
  show "t ! k = c" using assms by (rule nth_via_drop)
  have "drop (Suc k) t = tl (drop k t)" by (simp add: drop_Suc tl_drop)
  then show "cs = drop (Suc k) t" using assms by simp
qed

lemma match_Some_facts:
  assumes d: "drop k t = c # cs" and m: "match_word (c # cs) = Some (w, rest)"
  shows "rest = drop (k + length w) t" and "k + length w \<le> length t" and "Suc k < k + length w"
    and "is_letter (t ! k)" and "\<forall>l. k < l \<and> l < k + length w \<longrightarrow> is_cont (t ! l)"
    and "k + length w < length t \<longrightarrow> \<not> is_cont (t ! (k + length w))"
proof -
  note mw = match_word_SomeD[OF m]
  have dw: "drop k t = w @ rest" using d mw(1) by simp
  have k: "k < length t" using d by (rule drop_ConsD)
  have "length (drop k t) = length w + length rest" using dw by simp
  then show e: "k + length w \<le> length t" using k by simp
  have "drop (length w) (drop k t) = rest" using dw by simp
  then show r: "rest = drop (k + length w) t" by (simp add: add.commute)
  show "Suc k < k + length w" using mw(3) by simp
  have nth: "\<And>x. x < length w \<Longrightarrow> t ! (k + x) = w ! x"
  proof -
    fix x assume x: "x < length w"
    have "drop k t ! x = t ! (k + x)" using k by simp
    then show "t ! (k + x) = w ! x" using dw x by (simp add: nth_append)
  qed
  have w: "2 \<le> length w" "is_letter (w ! 0)" "\<forall>x. 0 < x \<and> x < length w \<longrightarrow> is_cont (w ! x)"
    using mw(2) by (simp_all add: is_word_nth)
  have "0 < length w" using w(1) by linarith
  from nth[OF this] show "is_letter (t ! k)" using w(2) by simp
  show "\<forall>l. k < l \<and> l < k + length w \<longrightarrow> is_cont (t ! l)"
  proof (intro allI impI)
    fix l assume l: "k < l \<and> l < k + length w"
    then have "0 < l - k \<and> l - k < length w" by auto
    then have "is_cont (w ! (l - k))" using w(3) by blast
    moreover have "t ! (k + (l - k)) = w ! (l - k)" using l by (intro nth) auto
    ultimately show "is_cont (t ! l)" using l by simp
  qed
  show "k + length w < length t \<longrightarrow> \<not> is_cont (t ! (k + length w))"
  proof
    assume lt: "k + length w < length t"
    then have "rest \<noteq> []" using r by simp
    moreover have "hd rest = t ! (k + length w)" unfolding r using lt by (rule hd_drop_conv_nth)
    ultimately show "\<not> is_cont (t ! (k + length w))" using mw(4) by simp
  qed
qed

lemma match_None_facts:
  assumes d: "drop k t = c # cs" and m: "match_word (c # cs) = None"
  shows "\<not> (is_letter (t ! k) \<and> Suc k < length t \<and> is_cont (t ! Suc k))"
proof
  assume a: "is_letter (t ! k) \<and> Suc k < length t \<and> is_cont (t ! Suc k)"
  have cs: "cs = drop (Suc k) t" and tk: "t ! k = c" using d by (rule drop_ConsD)+
  have "cs \<noteq> []" using a cs by simp
  moreover have "hd cs = t ! Suc k" unfolding cs using a by (intro hd_drop_conv_nth) simp
  ultimately show False using match_word_NoneD[OF m] a tk by simp
qed

lemma blocked_None:
  assumes "blocked t k" and "k < length t"
    and "\<not> (is_letter (t ! k) \<and> Suc k < length t \<and> is_cont (t ! Suc k))"
  shows "blocked t (Suc k)"
  unfolding blocked_def
proof (intro allI impI)
  fix i' assume i: "i' < Suc k" and l: "is_letter (t ! i')"
  show "\<exists>l. i' < l \<and> l \<le> Suc k \<and> (l = length t \<or> \<not> is_cont (t ! l))"
  proof (cases "i' = k")
    case True
    then have "Suc k = length t \<or> \<not> is_cont (t ! Suc k)" using assms(2,3) l by auto
    then show ?thesis using True by blast
  next
    case False
    then have "i' < k" using i by simp
    then obtain l' where "i' < l'" "l' \<le> k" "l' = length t \<or> \<not> is_cont (t ! l')"
      using assms(1) l unfolding blocked_def by blast
    then have "i' < l' \<and> l' \<le> Suc k \<and> (l' = length t \<or> \<not> is_cont (t ! l'))" by simp
    then show ?thesis by blast
  qed
qed

lemma blocked_end:
  assumes "e < length t \<longrightarrow> \<not> is_cont (t ! e)" and "e \<le> length t"
  shows "blocked t e"
  unfolding blocked_def using assms by (metis le_refl nat_less_le)

lemma no_run_at:
  assumes "\<not> (is_letter (t ! k) \<and> Suc k < length t \<and> is_cont (t ! Suc k))"
  shows "\<not> word_at t k j"
proof
  assume "word_at t k j"
  then have "Suc k < j" "j \<le> length t" "is_letter (t ! k)" "\<forall>l. k < l \<and> l < j \<longrightarrow> is_cont (t ! l)"
    by (simp_all add: word_at_nth)
  then have "is_letter (t ! k) \<and> Suc k < length t \<and> is_cont (t ! Suc k)" by auto
  then show False using assms by simp
qed

lemma run_at_match:
  assumes b: "blocked t k" and e: "e \<le> length t" and ke: "Suc k < e"
    and lk: "is_letter (t ! k)" and c: "\<forall>l. k < l \<and> l < e \<longrightarrow> is_cont (t ! l)"
    and en: "e < length t \<longrightarrow> \<not> is_cont (t ! e)"
  shows "maximal_run t k e" and "maximal_run t i j \<Longrightarrow> k \<le> i \<Longrightarrow> i < e \<Longrightarrow> i = k \<and> j = e"
proof -
  have w: "word_at t k e" using e ke lk c by (simp add: word_at_nth)
  have right: "\<And>i' j'. word_at t i' j' \<Longrightarrow> i' < e \<Longrightarrow> j' \<le> e"
  proof (rule ccontr)
    fix i' j' assume a: "word_at t i' j'" "i' < e" "\<not> j' \<le> e"
    then have "is_cont (t ! e)" "e < length t" by (auto simp: word_at_nth)
    then show False using en by simp
  qed
  have left: "\<And>i' j'. word_at t i' j' \<Longrightarrow> i' \<le> k \<Longrightarrow> k < j' \<Longrightarrow> i' = k"
  proof (rule ccontr)
    fix i' j' assume a: "word_at t i' j'" "i' \<le> k" "k < j'" "i' \<noteq> k"
    then have i: "i' < k" and li: "is_letter (t ! i')" and ci: "\<forall>l. i' < l \<and> l < j' \<longrightarrow> is_cont (t ! l)"
      and j: "j' \<le> length t"
      by (auto simp: word_at_nth)
    obtain l where l: "i' < l" "l \<le> k" "l = length t \<or> \<not> is_cont (t ! l)"
      using b i li unfolding blocked_def by blast
    have "l < j'" using l(2) a(3) by simp
    then have "is_cont (t ! l)" "l \<noteq> length t" using ci l(1) j by auto
    then show False using l(3) by simp
  qed
  show "maximal_run t k e"
    unfolding maximal_run_iff
  proof (rule conjI)
    show "word_at t k e" by (rule w)
  next
    show "\<forall>i' j'. i' \<le> k \<and> e \<le> j' \<and> word_at t i' j' \<longrightarrow> i' = k \<and> j' = e"
    proof (intro allI impI)
      fix i' j' assume a: "i' \<le> k \<and> e \<le> j' \<and> word_at t i' j'"
      then have "i' < e" using ke by simp
      then have "j' \<le> e" using right a by blast
      moreover have "i' = k" using left[of i' j'] a ke by simp
      ultimately show "i' = k \<and> j' = e" using a by simp
    qed
  qed
  assume m: "maximal_run t i j" and ki: "k \<le> i" and ie: "i < e"
  then have wi: "word_at t i j" by (simp add: maximal_run_iff)
  have "j \<le> e" using right[OF wi ie] .
  then show "i = k \<and> j = e"
    using m w ki unfolding maximal_run_iff by blast
qed

lemma finditer_from_maximal:
  "u = drop k t \<Longrightarrow> k \<le> length t \<Longrightarrow> blocked t k \<Longrightarrow>
     (\<exists>m \<in> set (finditer_from k u). start m = i \<and> stop m = j) \<longleftrightarrow> maximal_run t i j \<and> k \<le> i"
proof (induction k u rule: finditer_from.induct)
  case (1 k)
  then have "k = length t" by simp
  moreover have "maximal_run t i j \<Longrightarrow> i < length t"
    by (simp add: maximal_run_iff word_at_nth)
  ultimately show ?case by auto
next
  case (2 k c cs)
  have d: "drop k t = c # cs" using "2.prems"(1) by simp
  note dk = drop_ConsD[OF d]
  show ?case
  proof (cases "match_word (c # cs)")
    case None
    note nf = match_None_facts[OF d None]
    have b: "blocked t (k + 1)" using blocked_None[OF "2.prems"(3) dk(1) nf] by simp
    have ih: "(\<exists>m \<in> set (finditer_from (k + 1) cs). start m = i \<and> stop m = j)
        \<longleftrightarrow> maximal_run t i j \<and> k + 1 \<le> i"
      using "2.IH"(1)[OF None _ _ b] dk(1,3) by simp
    have nk: "maximal_run t i j \<Longrightarrow> i \<noteq> k"
      using no_run_at[OF nf] by (auto simp: maximal_run_iff)
    have eq: "maximal_run t i j \<and> k \<le> i \<longleftrightarrow> maximal_run t i j \<and> k + 1 \<le> i"
    proof
      assume a: "maximal_run t i j \<and> k \<le> i"
      then have "i \<noteq> k" using nk by blast
      then have "k + 1 \<le> i" using a by linarith
      then show "maximal_run t i j \<and> k + 1 \<le> i" using a by blast
    next
      assume a: "maximal_run t i j \<and> k + 1 \<le> i"
      then have "k \<le> i" by linarith
      then show "maximal_run t i j \<and> k \<le> i" using a by blast
    qed
    have fi: "finditer_from k (c # cs) = finditer_from (k + 1) cs"
      using finditer_from_None[OF None, of k] by simp
    show ?thesis unfolding fi using ih eq by blast
  next
    case (Some p)
    obtain w rest where p: "p = (w, rest)" by (cases p)
    have mw: "match_word (c # cs) = Some (w, rest)" using Some p by simp
    define e where "e = k + length w"
    note sf = match_Some_facts[OF d mw, folded e_def]
    have b: "blocked t e" using blocked_end[OF sf(6) sf(2)] .
    have ih: "(\<exists>m \<in> set (finditer_from e rest). start m = i \<and> stop m = j)
        \<longleftrightarrow> maximal_run t i j \<and> e \<le> i"
      using "2.IH"(2)[OF Some p[symmetric], folded e_def, OF sf(1) sf(2) b] .
    note rm = run_at_match[OF "2.prems"(3) sf(2) sf(3) sf(4) sf(5) sf(6)]
    have fi: "finditer_from k (c # cs) = \<lparr>start = k, stop = e, group0 = w\<rparr> # finditer_from e rest"
      using finditer_from_Some[OF mw, of k] by (simp add: e_def)
    have "maximal_run t i j \<and> k \<le> i \<longleftrightarrow> (i = k \<and> j = e) \<or> (maximal_run t i j \<and> e \<le> i)"
    proof
      assume a: "maximal_run t i j \<and> k \<le> i"
      show "(i = k \<and> j = e) \<or> (maximal_run t i j \<and> e \<le> i)"
      proof (cases "i < e")
        case True
        then show ?thesis using rm(2)[of i j] a by simp
      next
        case False
        then show ?thesis using a by simp
      qed
    next
      assume "(i = k \<and> j = e) \<or> (maximal_run t i j \<and> e \<le> i)"
      then show "maximal_run t i j \<and> k \<le> i"
        using rm(1) sf(3) by auto
    qed
    then have eq: "maximal_run t i j \<and> k \<le> i \<longleftrightarrow> (i = k \<and> j = e) \<or> (\<exists>m \<in> set (finditer_from e rest). start m = i \<and> stop m = j)"
      using ih by blast
    have "(\<exists>m \<in> set (finditer_from k (c # cs)). start m = i \<and> stop m = j)
        \<longleftrightarrow> (i = k \<and> j = e) \<or> (\<exists>m \<in> set (finditer_from e rest). start m = i \<and> stop m = j)"
      unfolding fi by auto
    then show ?thesis using eq by blast
  qed
qed

lemma blocked_0: "blocked t 0"
  by (simp add: blocked_def)

lemma finditer_maximal:
  "(\<exists>m \<in> set (finditer t). start m = i \<and> stop m = j) \<longleftrightarrow> maximal_run t i j"
proof -
  have "t = drop 0 t" by simp
  from finditer_from_maximal[OF this _ blocked_0, of i j] show ?thesis
    by (simp add: finditer_def)
qed

lemma finditer_from_slice:
  "m \<in> set (finditer_from (length p) u) \<Longrightarrow> group0 m = slice (p @ u) (start m) (stop m)"
proof (induction "length p" u arbitrary: p rule: finditer_from.induct)
  case 1
  then show ?case by simp
next
  case (2 c cs)
  show ?case
  proof (cases "match_word (c # cs)")
    case None
    have "m \<in> set (finditer_from (length (p @ [c])) cs)"
      using "2.prems" finditer_from_None[OF None, of "length p"] by simp
    from "2.hyps"(1)[OF None _ this] show ?thesis by simp
  next
    case (Some q)
    obtain w rest where q: "q = (w, rest)" by (cases q)
    have mw: "match_word (c # cs) = Some (w, rest)" using Some q by simp
    have u: "c # cs = w @ rest" using match_word_SomeD(1)[OF mw] .
    from "2.prems" finditer_from_Some[OF mw, of "length p"]
    consider "m = \<lparr>start = length p, stop = length p + length w, group0 = w\<rparr>"
      | "m \<in> set (finditer_from (length (p @ w)) rest)"
      by auto
    then show ?thesis
    proof cases
      case 1
      then show ?thesis by (simp add: slice_def u)
    next
      case 2
      from "2.hyps"(2)[OF Some q[symmetric] _ 2] show ?thesis by (simp add: u)
    qed
  qed
qed

lemma finditer_slice: "m \<in> set (finditer t) \<Longrightarrow> group0 m = slice t (start m) (stop m)"
proof -
  assume "m \<in> set (finditer t)"
  then have "m \<in> set (finditer_from (length ([]::string)) t)" by (simp add: finditer_def)
  from finditer_from_slice[OF this] show ?thesis by simp
qed

lemma finditer_from_sorted: "sorted_wrt (\<lambda>a b. stop a \<le> start b) (finditer_from k u)"
proof (induction k u rule: finditer_from.induct)
  case (1 k)
  then show ?case by simp
next
  case (2 k c cs)
  show ?case
  proof (cases "match_word (c # cs)")
    case None
    then show ?thesis using "2.IH"(1)[OF None] by simp
  next
    case (Some q)
    obtain w rest where q: "q = (w, rest)" by (cases q)
    have mw: "match_word (c # cs) = Some (w, rest)" using Some q by simp
    have "\<forall>m \<in> set (finditer_from (k + length w) rest). k + length w \<le> start m"
      using finditer_from_group0 by blast
    then show ?thesis
      using "2.IH"(2)[OF Some q[symmetric]] by (simp add: finditer_from_Some[OF mw] del: finditer_from.simps)
  qed
qed

lemma product_strict_sorted:
  fixes xs ys :: "nat list"
  shows "sorted_wrt (<) xs \<Longrightarrow> sorted_wrt (<) ys \<Longrightarrow> sorted_wrt (<) (List.product xs ys)"
proof (induction xs)
  case Nil
  then show ?case by simp
next
  case (Cons x xs)
  have a: "sorted_wrt (<) (map (Pair x) ys)"
    using Cons.prems(2) by (simp add: sorted_wrt_map)
  have b: "sorted_wrt (<) (List.product xs ys)"
    using Cons by simp
  have c: "\<forall>p \<in> set (map (Pair x) ys). \<forall>q \<in> set (List.product xs ys). p < q"
    using Cons.prems(1) by auto
  show ?case using a b c by (simp add: sorted_wrt_append)
qed

lemma maximal_runs_sorted: "sorted_wrt (<) (maximal_runs t)"
proof -
  have "sorted_wrt (<) (List.product [0..<length t] [0..<Suc (length t)])"
    by (rule product_strict_sorted) (simp_all add: sorted_wrt_upt del: upt_Suc)
  then show ?thesis unfolding maximal_runs_def by (rule sorted_wrt_filter)
qed

lemma maximal_runs_set: "(i, j) \<in> set (maximal_runs t) \<longleftrightarrow> maximal_run t i j"
proof -
  have "maximal_run t i j \<Longrightarrow> i < length t \<and> j < Suc (length t)"
    by (auto simp: maximal_run_iff word_at_nth)
  then show ?thesis by (auto simp: maximal_runs_def)
qed

lemma finditer_start_stop: "m \<in> set (finditer t) \<Longrightarrow> start m < stop m"
  using finditer_from_group0[of m 0 t] by (auto simp: finditer_def)

lemma finditer_sorted: "sorted_wrt (\<lambda>a b. stop a \<le> start b) (finditer t)"
  unfolding finditer_def by (rule finditer_from_sorted)

lemma finditer_spans_sorted: "sorted_wrt (<) (map span (finditer t))"
proof -
  have "sorted_wrt (\<lambda>a b. span a < span b) (finditer t)"
  proof (rule sorted_wrt_mono_rel[OF _ finditer_sorted])
    fix a b assume "a \<in> set (finditer t)" "b \<in> set (finditer t)" "stop a \<le> start b"
    then show "span a < span b"
      using finditer_start_stop[of a t] by (simp add: span_def)
  qed
  then show ?thesis by (simp add: sorted_wrt_map)
qed

lemma finditer_spans_set: "(i, j) \<in> set (map span (finditer t)) \<longleftrightarrow> maximal_run t i j"
proof -
  have "(i, j) \<in> set (map span (finditer t))
      \<longleftrightarrow> (\<exists>m \<in> set (finditer t). start m = i \<and> stop m = j)"
    by (auto simp: span_def)
  then show ?thesis by (simp add: finditer_maximal)
qed

lemma maximal_runs_finditer: "maximal_runs t = map span (finditer t)"
proof (rule strict_sorted_equal)
  show "sorted_wrt (<) (map span (finditer t))" by (rule finditer_spans_sorted)
  show "sorted_wrt (<) (maximal_runs t)" by (rule maximal_runs_sorted)
  show "set (maximal_runs t) = set (map span (finditer t))"
  proof (rule set_eqI)
    fix p :: "nat \<times> nat"
    obtain i j where p: "p = (i, j)" by (cases p)
    show "p \<in> set (maximal_runs t) \<longleftrightarrow> p \<in> set (map span (finditer t))"
      unfolding p by (simp only: maximal_runs_set finditer_spans_set)
  qed
qed

lemma normalize_words_runs:
  "normalize_words t = map (\<lambda>(i, j). lower (slice t i j)) (maximal_runs t)"
proof -
  have "map (\<lambda>m. lower (group0 m)) (finditer t)
      = map (\<lambda>m. lower (slice t (start m) (stop m))) (finditer t)"
    by (rule map_cong) (simp_all add: finditer_slice)
  also have "\<dots> = map (\<lambda>(i, j). lower (slice t i j)) (map span (finditer t))"
    by (simp add: span_def comp_def)
  finally show ?thesis by (simp add: normalize_words_def maximal_runs_finditer)
qed

lemma maximal_runs_disjoint: "sorted_wrt (\<lambda>(i, j) (i', j'). j \<le> i') (maximal_runs t)"
proof -
  have "sorted_wrt (\<lambda>a b. (case span a of (i, j) \<Rightarrow> \<lambda>(i', j'). j \<le> i') (span b)) (finditer t)"
    using finditer_sorted[of t] by (simp add: span_def)
  then show ?thesis by (simp add: maximal_runs_finditer sorted_wrt_map)
qed

lemma finditer_example:
  "finditer ''C++ and c#'' =
     [\<lparr>start = 0, stop = 3, group0 = ''C++''\<rparr>, \<lparr>start = 4, stop = 7, group0 = ''and''\<rparr>,
      \<lparr>start = 8, stop = 10, group0 = ''c#''\<rparr>]"
  by code_simp

lemma nw_example: "normalize_words ''C++ and c#'' = [''c++'', ''and'', ''c#'']"
  by code_simp

text \<open>
  C3. \<^verbatim>\<open>normalize_words\<close> returns the lowercased maximal runs of the text, in the order of
  their position: a run is a letter followed by at least one continuation character
  (letter, digit, \<^verbatim>\<open>+\<close>, \<^verbatim>\<open>.\<close>, \<^verbatim>\<open>#\<close>, \<^verbatim>\<open>-\<close>), and it is maximal when no other run of
  the text contains it. The maximal runs do not overlap. \<^verbatim>\<open>C++\<close> and \<^verbatim>\<open>c#\<close> come out as the
  single tokens \<^verbatim>\<open>c++\<close> and \<^verbatim>\<open>c#\<close>. The result is a function of the text alone.
\<close>

theorem normalize_words_maximal_runs:
  "normalize_words text = map (\<lambda>(i, j). lower (slice text i j)) (maximal_runs text)
   \<and> ((i, j) \<in> set (maximal_runs text) \<longleftrightarrow> maximal_run text i j)
   \<and> sorted_wrt (\<lambda>(i, j) (i', j'). j \<le> i') (maximal_runs text)
   \<and> normalize_words ''C++ and c#'' = [''c++'', ''and'', ''c#'']"
  by (simp only: normalize_words_runs[symmetric] maximal_runs_set maximal_runs_disjoint nw_example simp_thms)

theorem normalize_words_maximal_runs_witness:
  "maximal_runs ''C++ and c#'' = [(0, 3), (4, 7), (8, 10)]
   \<and> maximal_run ''C++ and c#'' 0 3 \<and> maximal_run ''C++ and c#'' 4 7
   \<and> maximal_run ''C++ and c#'' 8 10 \<and> \<not> maximal_run ''C++ and c#'' 0 2
   \<and> map (\<lambda>(i, j). lower (slice ''C++ and c#'' i j)) (maximal_runs ''C++ and c#'') =
        [''c++'', ''and'', ''c#'']"
proof -
  have r: "maximal_runs ''C++ and c#'' = [(0, 3), (4, 7), (8, 10)]"
    by (simp add: maximal_runs_finditer finditer_example span_def)
  note t = normalize_words_maximal_runs[of "''C++ and c#''"]
  have "maximal_run ''C++ and c#'' 0 3" using t[of 0 3] by (simp add: r)
  moreover have "maximal_run ''C++ and c#'' 4 7" using t[of 4 7] by (simp add: r)
  moreover have "maximal_run ''C++ and c#'' 8 10" using t[of 8 10] by (simp add: r)
  moreover have "\<not> maximal_run ''C++ and c#'' 0 2" using t[of 0 2] by (simp add: r)
  moreover have "map (\<lambda>(i, j). lower (slice ''C++ and c#'' i j)) (maximal_runs ''C++ and c#'') =
        [''c++'', ''and'', ''c#'']"
  proof -
    have a: "normalize_words ''C++ and c#'' =
        map (\<lambda>(i, j). lower (slice ''C++ and c#'' i j)) (maximal_runs ''C++ and c#'')"
      using t[of 0 0] by (rule conjunct1)
    have b: "normalize_words ''C++ and c#'' = [''c++'', ''and'', ''c#'']"
      using t[of 0 0] by (elim conjE)
    show ?thesis using a b by (rule trans[OF sym])
  qed
  ultimately show ?thesis using r by simp
qed

section \<open>Rounding and the binary64 grid\<close>

lemma rhe_cases:
  "round_half_even x = \<lfloor>x\<rfloor> \<or> round_half_even x = \<lfloor>x\<rfloor> + 1"
  by (simp add: round_half_even_def Let_def)

lemma rhe_upper: "of_int (round_half_even x) \<le> x + 1 / 2"
proof -
  have g: "x < of_int \<lfloor>x\<rfloor> + 1" by linarith
  show ?thesis
  proof (cases "x - of_int \<lfloor>x\<rfloor> < 1 / 2")
    case True
    then have "round_half_even x = \<lfloor>x\<rfloor>" by (simp add: round_half_even_def Let_def)
    then have "(of_int (round_half_even x) :: rat) = of_int \<lfloor>x\<rfloor>" by (simp only:)
    moreover have "of_int \<lfloor>x\<rfloor> \<le> x" by (rule of_int_floor_le)
    ultimately show ?thesis by linarith
  next
    case False
    then have "of_int \<lfloor>x\<rfloor> + 1 \<le> x + 1 / 2" by linarith
    moreover have "(of_int (round_half_even x) :: rat) \<le> of_int (\<lfloor>x\<rfloor> + 1)"
      using rhe_cases[of x] by (simp only: of_int_le_iff) linarith
    ultimately show ?thesis by (simp only: of_int_add of_int_1)
  qed
qed

lemma rhe_lower: "x - 1 / 2 \<le> of_int (round_half_even x)"
proof -
  have g: "x < of_int \<lfloor>x\<rfloor> + 1" by linarith
  show ?thesis
  proof (cases "1 / 2 < x - of_int \<lfloor>x\<rfloor>")
    case True
    then have "round_half_even x = \<lfloor>x\<rfloor> + 1" by (simp add: round_half_even_def Let_def)
    then have "(of_int (round_half_even x) :: rat) = of_int \<lfloor>x\<rfloor> + 1" by simp
    then show ?thesis using g by linarith
  next
    case False
    then have "x - 1 / 2 \<le> of_int \<lfloor>x\<rfloor>" by linarith
    moreover have "(of_int \<lfloor>x\<rfloor> :: rat) \<le> of_int (round_half_even x)"
      using rhe_cases[of x] by (simp only: of_int_le_iff) linarith
    ultimately show ?thesis by (simp only: of_int_add of_int_1)
  qed
qed

lemma rhe_abs: "\<bar>of_int (round_half_even x) - x\<bar> \<le> 1 / 2"
  using rhe_upper[of x] rhe_lower[of x] by linarith

lemma rhe_of_int: "round_half_even (of_int z) = z"
  by (simp add: round_half_even_def)

lemma rhe_le: "x \<le> of_int z \<Longrightarrow> round_half_even x \<le> z"
proof -
  assume a: "x \<le> of_int z"
  show ?thesis
  proof (cases "x = of_int z")
    case True
    then show ?thesis by (simp add: rhe_of_int)
  next
    case False
    with a have "x < of_int z" by simp
    then have "\<lfloor>x\<rfloor> < z" by (simp add: floor_less_iff)
    then show ?thesis using rhe_cases[of x] by linarith
  qed
qed

lemma rhe_ge: "of_int z \<le> x \<Longrightarrow> z \<le> round_half_even x"
proof -
  assume "of_int z \<le> x"
  then have "z \<le> \<lfloor>x\<rfloor>" by (simp add: le_floor_iff)
  then show ?thesis using rhe_cases[of x] by linarith
qed

lemma rhe_near: "\<bar>x - of_int z\<bar> < 1 / 2 \<Longrightarrow> round_half_even x = z"
proof -
  assume a: "\<bar>x - of_int z\<bar> < 1 / 2"
  let ?k = "round_half_even x"
  have "\<bar>(of_int ?k :: rat) - of_int z\<bar> < 1"
    using rhe_abs[of x] a by linarith
  then have "(of_int z :: rat) - 1 < of_int ?k" and "(of_int ?k :: rat) < of_int z + 1"
    by linarith+
  then have "(of_int (z - 1) :: rat) < of_int ?k" and "(of_int ?k :: rat) < of_int (z + 1)"
    by simp_all
  then have "z - 1 < ?k" and "?k < z + 1"
    by (simp_all only: of_int_less_iff)
  then show ?thesis by linarith
qed

lemma find_shift_stop: "2 ^ 52 \<le> q * 2 ^ s \<or> 1074 \<le> s \<Longrightarrow> find_shift q s = s"
  by (subst find_shift.simps) simp

lemma find_shift_step: "\<not> (2 ^ 52 \<le> q * 2 ^ s \<or> 1074 \<le> s) \<Longrightarrow> find_shift q s = find_shift q (Suc s)"
  by (subst find_shift.simps) simp

lemma find_shift_post:
  "2 ^ 52 \<le> q * 2 ^ find_shift q s \<or> 1074 \<le> find_shift q s"
proof (induction q s rule: find_shift.induct)
  case (1 q s)
  show ?case
  proof (cases "2 ^ 52 \<le> q * 2 ^ s \<or> 1074 \<le> s")
    case True
    then show ?thesis by (simp only: find_shift_stop[OF True])
  next
    case False
    from 1[OF False] show ?thesis by (simp only: find_shift_step[OF False])
  qed
qed

lemma find_shift_eq:
  assumes "0 < q" and "2 ^ 52 \<le> q * 2 ^ s" and "q * 2 ^ s < 2 ^ 53" and "s \<le> 1074" and "s0 \<le> s"
  shows "find_shift q s0 = s"
  using assms(5)
proof (induction "s - s0" arbitrary: s0)
  case 0
  then have "s0 = s" by simp
  then show ?case using assms(2) find_shift_stop[of q s] by blast
next
  case (Suc d)
  then have lt: "s0 < s" by simp
  then have "Suc s0 \<le> s" by simp
  then have "(2::rat) ^ Suc s0 \<le> 2 ^ s" by (rule power_increasing) simp
  then have "q * 2 ^ Suc s0 \<le> q * 2 ^ s" using assms(1) by (simp only: mult_le_cancel_left_pos)
  then have "q * 2 ^ Suc s0 < 2 ^ 53" using assms(3) by (rule le_less_trans)
  then have "q * 2 ^ s0 * 2 < 2 ^ 52 * 2" by (simp add: mult.assoc)
  then have "q * 2 ^ s0 < 2 ^ 52" by (simp only: mult_less_cancel_right_pos zero_less_numeral)
  then have "\<not> (2 ^ 52 \<le> q * 2 ^ s0 \<or> 1074 \<le> s0)" using lt assms(4) by (simp add: not_le)
  then have "find_shift q s0 = find_shift q (Suc s0)" by (rule find_shift_step)
  moreover have "find_shift q (Suc s0) = s"
  proof (rule Suc.hyps(1))
    show "d = s - Suc s0" using Suc.hyps(2) by simp
    show "Suc s0 \<le> s" using lt by simp
  qed
  ultimately show ?case by simp
qed

lemma to_double_pos:
  "0 < q \<Longrightarrow> to_double q = of_int (round_half_even (q * 2 ^ find_shift q 0)) / 2 ^ find_shift q 0"
  by (simp add: to_double_def Let_def)

lemma to_double_cert:
  assumes "0 < q" and "2 ^ 52 \<le> q * 2 ^ s" and "q * 2 ^ s < 2 ^ 53" and "s \<le> 1074"
  shows "to_double q = of_int (round_half_even (q * 2 ^ s)) / 2 ^ s"
proof -
  have "find_shift q 0 = s" using assms by (intro find_shift_eq) simp_all
  then show ?thesis using to_double_pos[OF assms(1)] by (simp only:)
qed

lemma to_double_0: "to_double 0 = 0"
  by (simp add: to_double_def)

lemma to_double_nonneg: "0 \<le> q \<Longrightarrow> 0 \<le> to_double q"
proof (cases "q = 0")
  case True
  then show ?thesis by (simp add: to_double_0)
next
  case False
  assume "0 \<le> q"
  with False have q: "0 < q" by simp
  have "of_int 0 \<le> q * 2 ^ find_shift q 0" using q by simp
  then have "0 \<le> round_half_even (q * 2 ^ find_shift q 0)" by (rule rhe_ge)
  then show ?thesis by (simp add: to_double_pos[OF q])
qed

lemma to_double_le_nat:
  assumes "0 \<le> q" and "q \<le> of_nat n"
  shows "to_double q \<le> of_nat n"
proof (cases "q = 0")
  case True
  then show ?thesis by (simp add: to_double_0)
next
  case False
  with assms have q: "0 < q" by simp
  define s where "s = find_shift q 0"
  define P :: rat where "P = 2 ^ s"
  have P: "0 < P" by (simp add: P_def)
  have "q * P \<le> of_nat n * P" using assms(2) P by (simp only: mult_le_cancel_right_pos)
  also have "of_nat n * P = of_int (int n * 2 ^ s)" by (simp add: P_def)
  finally have "round_half_even (q * P) \<le> int n * 2 ^ s" by (rule rhe_le)
  then have "(of_int (round_half_even (q * P)) :: rat) \<le> of_int (int n * 2 ^ s)"
    by (simp only: of_int_le_iff)
  also have "(of_int (int n * 2 ^ s) :: rat) = of_nat n * P" by (simp add: P_def)
  finally have "(of_int (round_half_even (q * P)) :: rat) / P \<le> of_nat n"
    using P by (simp only: pos_divide_le_eq)
  then show ?thesis by (simp add: to_double_pos[OF q] s_def P_def)
qed

lemma to_double_err:
  assumes "0 \<le> q" and "q \<le> 2 ^ e"
  shows "\<bar>to_double q - q\<bar> * 2 ^ 53 \<le> 2 ^ e"
proof (cases "q = 0")
  case True
  then show ?thesis by (simp add: to_double_0)
next
  case False
  with assms have q: "0 < q" by simp
  define s where "s = find_shift q 0"
  define P :: rat where "P = 2 ^ s"
  define E :: rat where "E = 2 ^ e"
  define d where "d = \<bar>to_double q - q\<bar>"
  have P: "0 < P" by (simp add: P_def)
  have E: "0 < E" by (simp add: E_def)
  have d0: "0 \<le> d" by (simp add: d_def)
  have s: "(2::rat) ^ 52 \<le> E * P"
  proof (cases "1074 \<le> s")
    case True
    then have "(2::rat) ^ 52 \<le> 2 ^ s" by (intro power_increasing) simp_all
    also have "\<dots> = 1 * P" by (simp add: P_def)
    also have "\<dots> \<le> E * P" using P by (simp only: mult_le_cancel_right_pos) (simp add: E_def)
    finally show ?thesis .
  next
    case False
    then have "(2::rat) ^ 52 \<le> q * P" using find_shift_post[of q 0] by (simp add: s_def P_def)
    also have "\<dots> \<le> E * P" using assms(2) P by (simp only: mult_le_cancel_right_pos E_def)
    finally show ?thesis .
  qed
  have td: "to_double q = of_int (round_half_even (q * P)) / P"
    by (simp add: to_double_pos[OF q] s_def P_def)
  have "\<bar>of_int (round_half_even (q * P)) - q * P\<bar> \<le> 1 / 2" by (rule rhe_abs)
  moreover have "of_int (round_half_even (q * P)) - q * P = (to_double q - q) * P"
    using P by (simp add: td left_diff_distrib)
  ultimately have "\<bar>(to_double q - q) * P\<bar> \<le> 1 / 2" by (simp only:)
  then have a: "d * P \<le> 1 / 2" using P by (simp add: abs_mult d_def)
  have "d * 2 ^ 53 = d * (2 ^ 52 * 2)" by simp
  also have "\<dots> \<le> d * (E * P * 2)"
    using s d0 by (intro mult_left_mono mult_right_mono) simp_all
  also have "\<dots> = E * ((d * P) * 2)" by (simp add: mult_ac)
  also have "\<dots> \<le> E * 1" using a E by (intro mult_left_mono) simp_all
  finally show ?thesis by (simp add: d_def E_def)
qed

section \<open>The arithmetic of the score\<close>

lemma truediv_bounds:
  assumes "m \<le> n" and "0 < n"
  shows "0 \<le> py_truediv m n" and "py_truediv m n \<le> 1"
    and "\<bar>py_truediv m n - of_nat m / of_nat n\<bar> * 2 ^ 53 \<le> 1"
proof -
  have q0: "(0::rat) \<le> of_nat m / of_nat n" by simp
  have q1: "(of_nat m :: rat) / of_nat n \<le> 1" using assms by (simp add: divide_le_eq)
  show "0 \<le> py_truediv m n" unfolding py_truediv_def by (rule to_double_nonneg[OF q0])
  show "py_truediv m n \<le> 1"
    unfolding py_truediv_def using to_double_le_nat[OF q0, of 1] q1 by simp
  show "\<bar>py_truediv m n - of_nat m / of_nat n\<bar> * 2 ^ 53 \<le> 1"
    unfolding py_truediv_def using to_double_err[OF q0, of 0] q1 by simp
qed

lemma mul100_bounds:
  assumes "0 \<le> d" and "d \<le> 1"
  shows "0 \<le> py_mul d 100" and "py_mul d 100 \<le> 100"
    and "\<bar>py_mul d 100 - d * 100\<bar> * 2 ^ 53 \<le> 128"
proof -
  have q0: "0 \<le> d * 100" using assms by simp
  have q1: "d * 100 \<le> 100" using assms by simp
  show "0 \<le> py_mul d 100" unfolding py_mul_def by (rule to_double_nonneg[OF q0])
  show "py_mul d 100 \<le> 100"
    unfolding py_mul_def using to_double_le_nat[OF q0, of 100] q1 by simp
  have "d * 100 \<le> 2 ^ 7" using q1 by simp
  from to_double_err[OF q0 this]
  show "\<bar>py_mul d 100 - d * 100\<bar> * 2 ^ 53 \<le> 128"
    unfolding py_mul_def by simp
qed

lemma round2_bounds:
  assumes "0 \<le> y" and "y \<le> 100"
  shows "0 \<le> round_half_even (y * 100)" and "round_half_even (y * 100) \<le> 10000"
    and "0 \<le> py_round2 y" and "py_round2 y \<le> 100"
proof -
  have "of_int 0 \<le> y * 100" using assms by simp
  then show k0: "0 \<le> round_half_even (y * 100)" by (rule rhe_ge)
  have "y * 100 \<le> of_int 10000" using assms by simp
  then show k1: "round_half_even (y * 100) \<le> 10000" by (rule rhe_le)
  have a: "(0::rat) \<le> of_int (round_half_even (y * 100)) / 100" using k0 by simp
  have "(of_int (round_half_even (y * 100)) :: rat) \<le> of_int 10000"
    using k1 by (simp only: of_int_le_iff)
  then have b: "(of_int (round_half_even (y * 100)) :: rat) / 100 \<le> of_nat 100" by simp
  show "0 \<le> py_round2 y" unfolding py_round2_def by (rule to_double_nonneg[OF a])
  show "py_round2 y \<le> 100"
    unfolding py_round2_def using to_double_le_nat[OF a b] by simp
qed

lemma product_error:
  assumes "m \<le> n" and "0 < n"
  shows "\<bar>py_mul (py_truediv m n) 100 - exact_percentage m n\<bar> * 2 ^ 45 \<le> 1"
proof -
  define d where "d = py_truediv m n"
  define y where "y = py_mul d 100"
  define r :: rat where "r = of_nat m / of_nat n"
  note t = truediv_bounds[OF assms, folded d_def r_def]
  note u = mul100_bounds[OF t(1,2), folded y_def]
  have p: "exact_percentage m n = r * 100" by (simp add: exact_percentage_def r_def)
  define A where "A = \<bar>y - r * 100\<bar>"
  define B where "B = \<bar>y - d * 100\<bar>"
  define C where "C = \<bar>d - r\<bar>"
  define K :: rat where "K = 2 ^ 53"
  define L :: rat where "L = 2 ^ 45"
  have K: "0 \<le> K" and KL: "K = L * 256" by (simp_all add: K_def L_def)
  have e1: "d * 100 - r * 100 = (d - r) * 100" by (simp only: left_diff_distrib)
  have "\<bar>(d - r) * 100\<bar> = \<bar>d - r\<bar> * \<bar>100::rat\<bar>" by (rule abs_mult)
  then have "\<bar>d * 100 - r * 100\<bar> = C * 100" by (simp only: e1 abs_numeral C_def)
  then have "A \<le> B + C * 100" unfolding A_def B_def by linarith
  then have "A * K \<le> (B + C * 100) * K" using K by (rule mult_right_mono)
  also have "\<dots> = B * K + (C * K) * 100" by (simp add: algebra_simps)
  also have "\<dots> \<le> 128 + 1 * 100"
    using t(3) u(3) unfolding B_def C_def K_def by linarith
  finally have "A * L * 256 \<le> 1 * 256" by (simp add: KL mult.assoc)
  then have "A * L \<le> 1" by (simp only: mult_le_cancel_right_pos zero_less_numeral)
  then have "\<bar>y - r * 100\<bar> * 2 ^ 45 \<le> 1" by (simp only: A_def L_def)
  then show ?thesis by (simp only: p y_def d_def)
qed

lemma score_arith:
  assumes "m \<le> n" and "0 < n"
  defines "y \<equiv> py_mul (py_truediv m n) 100"
  defines "p \<equiv> exact_percentage m n"
  shows "0 \<le> py_round2 y" and "py_round2 y \<le> 100"
    and "0 \<le> round_half_even (y * 100)" and "round_half_even (y * 100) \<le> 10000"
    and "\<bar>of_int (round_half_even (y * 100)) / 100 - p\<bar> \<le> 1 / 200 + 1 / 2 ^ 45"
    and "\<bar>p * 100 - of_int (round_half_even (p * 100))\<bar> < 1 / 2 - 100 / 2 ^ 45
           \<Longrightarrow> py_round2 y = to_double (round2_exact p)"
proof -
  note t = truediv_bounds[OF assms(1,2)]
  note u = mul100_bounds[OF t(1,2), folded y_def]
  note r = round2_bounds[OF u(1,2)]
  show "0 \<le> py_round2 y" "py_round2 y \<le> 100"
    "0 \<le> round_half_even (y * 100)" "round_half_even (y * 100) \<le> 10000"
    by (rule r)+
  define L :: rat where "L = 2 ^ 45"
  have L: "0 < L" by (simp add: L_def)
  have "\<bar>y - p\<bar> * L \<le> 1"
    using product_error[OF assms(1,2)] by (simp only: y_def p_def L_def)
  then have yp: "\<bar>y - p\<bar> \<le> 1 / L" using L by (simp only: pos_le_divide_eq)
  define k where "k = round_half_even (y * 100)"
  have "\<bar>of_int k - y * 100\<bar> \<le> 1 / 2" unfolding k_def by (rule rhe_abs)
  then have ky: "\<bar>of_int k / 100 - y\<bar> \<le> 1 / 200" by (simp add: abs_le_iff field_simps)
  have "\<bar>of_int k / 100 - p\<bar> \<le> 1 / 200 + 1 / L" using ky yp by linarith
  then show "\<bar>of_int (round_half_even (y * 100)) / 100 - p\<bar> \<le> 1 / 200 + 1 / 2 ^ 45"
    by (simp only: k_def L_def)
  assume a: "\<bar>p * 100 - of_int (round_half_even (p * 100))\<bar> < 1 / 2 - 100 / 2 ^ 45"
  define z where "z = round_half_even (p * 100)"
  have a': "\<bar>p * 100 - of_int z\<bar> < 1 / 2 - 100 / L" using a by (simp only: z_def L_def)
  have "\<bar>y * 100 - p * 100\<bar> \<le> 100 / L" using yp by (simp add: abs_le_iff field_simps)
  then have "\<bar>y * 100 - of_int z\<bar> < 1 / 2" using a' by linarith
  then have "round_half_even (y * 100) = z" by (rule rhe_near)
  then show "py_round2 y = to_double (round2_exact p)"
    by (simp add: py_round2_def round2_exact_def z_def)
qed

lemma card_matches:
  "card (set xs \<inter> set ys) \<le> card (set ys)" and "set ys \<noteq> {} \<Longrightarrow> 0 < card (set ys)"
  by (simp_all add: card_mono card_gt_0_iff)

lemma rhe_tie: "x = of_int f + 1 / 2 \<Longrightarrow> round_half_even x = (if even f then f else f + 1)"
proof -
  assume x: "x = of_int f + 1 / 2"
  have "\<lfloor>x\<rfloor> = f" by (rule floor_unique) (simp_all add: x)
  then show ?thesis by (simp add: round_half_even_def x)
qed

lemma to_double_eval:
  assumes "0 < q" and "2 ^ 52 \<le> q * 2 ^ s" and "q * 2 ^ s < 2 ^ 53" and "s \<le> 1074"
    and "\<bar>q * 2 ^ s - of_int z\<bar> < 1 / 2"
  shows "to_double q = of_int z / 2 ^ s"
  using to_double_cert[OF assms(1-4)] rhe_near[OF assms(5)] by simp

lemma py_round2_eval:
  assumes "\<bar>x * 100 - of_int k\<bar> < 1 / 2"
  shows "py_round2 x = to_double (of_int k / 100)"
  using rhe_near[OF assms] by (simp add: py_round2_def)

lemma d_23_160: "py_truediv 23 160 = 5179139571476070 / 2 ^ 55"
  using to_double_eval[of "23 / 160" 55 5179139571476070] by (simp add: py_truediv_def)

lemma y_23_160: "py_mul (5179139571476070 / 2 ^ 55) 100 = 8092405580431359 / 2 ^ 49"
  using to_double_eval[of "5179139571476070 / 2 ^ 55 * 100" 49 8092405580431359]
  by (simp add: py_mul_def)

lemma r_23_160: "py_round2 (8092405580431359 / 2 ^ 49) = 8089590830664253 / 2 ^ 49"
  using py_round2_eval[of "8092405580431359 / 2 ^ 49" 1437]
    to_double_eval[of "1437 / 100" 49 8089590830664253]
  by simp

lemma spec_23_160: "to_double (round2_exact (exact_percentage 23 160)) = 8095220330198467 / 2 ^ 49"
  using rhe_tie[of "exact_percentage 23 160 * 100" 1437]
    to_double_eval[of "1438 / 100" 49 8095220330198467]
  by (simp add: round2_exact_def exact_percentage_def)

lemma code_23_160: "py_round2 (py_mul (py_truediv 23 160) 100) = 8089590830664253 / 2 ^ 49"
  by (simp only: d_23_160 y_23_160 r_23_160)

section \<open>The filter\<close>

lemma float_le_trans: "float_le a b \<Longrightarrow> float_le b c \<Longrightarrow> float_le a c"
  by (cases a; cases b; cases c) simp_all

lemma float_le_zero_iff: "float_le t (Finite 0) \<longleftrightarrow> t = NegInf \<or> (\<exists>x. x \<le> 0 \<and> t = Finite x)"
  by (cases t) simp_all

lemma filter_loop_eq:
  "filter_loop acc jobs r t =
     acc @ map (\<lambda>job. (job, ats_score r (description job)))
             (filter (\<lambda>job. float_ge (ats_score r (description job)) t) jobs)"
  by (induction jobs arbitrary: acc) (simp_all add: Let_def)

lemma filter_jobs_eq:
  "filter_jobs_by_score jobs r t =
     map (\<lambda>job. (job, ats_score r (description job)))
       (filter (\<lambda>job. float_ge (ats_score r (description job)) t) jobs)"
  by (simp add: filter_jobs_by_score_def filter_loop_eq)

lemma filter_jobs_mem:
  "(job, s) \<in> set (filter_jobs_by_score jobs r t) \<longleftrightarrow>
     job \<in> set jobs \<and> s = ats_score r (description job) \<and> float_ge s t"
  by (auto simp: filter_jobs_eq)

lemma ats_score_no_tokens: "normalize_words d = [] \<Longrightarrow> ats_score r d = Finite 0"
  by (simp add: ats_score_def)

lemma normalize_words_Nil: "normalize_words [] = []"
  by (simp add: normalize_words_def finditer_def)

lemma filter_mono_subseq:
  assumes "\<And>x. Q x \<Longrightarrow> P x"
  shows "subseq (filter Q xs) (filter P xs)"
proof -
  have "filter Q xs = filter Q (filter P xs)"
    using assms by (simp add: conj_commute cong: conj_cong) (metis (mono_tags, lifting) filter_cong)
  then show ?thesis by (metis subseq_filter_left)
qed

section \<open>Examples of scores\<close>

lemma ats_score_cards:
  "set (normalize_words j) \<noteq> {} \<Longrightarrow>
     ats_score r j =
       Finite (py_round2 (py_mul (py_truediv (card (set (normalize_words r) \<inter> set (normalize_words j)))
                                              (card (set (normalize_words j)))) 100))"
  by (simp add: ats_score_def Let_def)

lemma to_double_1: "to_double 1 = 1"
  using to_double_eval[of 1 52 "2 ^ 52"] by simp

lemma to_double_100: "to_double 100 = 100"
  using to_double_eval[of 100 46 "100 * 2 ^ 46"] by simp

lemma to_double_50: "to_double 50 = 50"
  using to_double_eval[of 50 47 "50 * 2 ^ 47"] by simp

lemma to_double_half: "to_double (1 / 2) = 1 / 2"
  using to_double_eval[of "1 / 2" 53 "2 ^ 52"] by simp

lemma score_1_1: "py_round2 (py_mul (py_truediv (Suc 0) (Suc 0)) 100) = 100"
  using py_round2_eval[of 100 10000] by (simp add: py_truediv_def py_mul_def to_double_1 to_double_100)

lemma score_1_2: "py_round2 (py_mul (py_truediv (Suc 0) (Suc (Suc 0))) 100) = 50"
  using py_round2_eval[of 50 5000] by (simp add: py_truediv_def py_mul_def to_double_half to_double_50)

lemma score_0_n: "py_round2 (py_mul (py_truediv 0 n) 100) = 0"
  using py_round2_eval[of 0 0] by (simp add: py_truediv_def py_mul_def to_double_0)

lemma nw_py: "normalize_words ''py'' = [''py'']"
  by code_simp

lemma nw_go: "normalize_words ''go'' = [''go'']"
  by code_simp

lemma nw_py_go: "normalize_words ''py go'' = [''py'', ''go'']"
  by code_simp

lemma ex_score_full: "ats_score ''py'' ''py'' = Finite 100"
  by (simp add: ats_score_cards nw_py score_1_1)

lemma ex_score_half: "ats_score ''py'' ''py go'' = Finite 50"
  by (simp add: ats_score_cards nw_py nw_py_go score_1_2)

lemma ex_score_none: "ats_score ''go'' ''py'' = Finite 0"
  by (simp add: ats_score_cards nw_py nw_go score_0_n)

lemma ex_score_empty: "ats_score r [] = Finite 0"
  by (simp add: ats_score_no_tokens normalize_words_Nil)

section \<open>The claims on the empty vocabulary and on the filter\<close>

lemma job_descriptions:
  "description job_a = ''py''" "description job_b = ''py go''" "description job_c = []"
  by (simp_all add: job_a_def job_b_def job_c_def)

lemma jobs_distinct: "job_a \<noteq> job_c" "job_b \<noteq> job_c" "job_a \<noteq> job_b"
  by (simp_all add: job_a_def job_b_def job_c_def)

lemma ex_filter_80:
  "filter_jobs_by_score [job_a, job_b, job_c] ''py'' (Finite 80) = [(job_a, Finite 100)]"
  by (simp add: filter_jobs_eq job_descriptions ex_score_full ex_score_half ex_score_empty float_ge_def)

lemma ex_filter_50:
  "filter_jobs_by_score [job_a, job_b, job_c] ''py'' (Finite 50) =
     [(job_a, Finite 100), (job_b, Finite 50)]"
  by (simp add: filter_jobs_eq job_descriptions ex_score_full ex_score_half ex_score_empty float_ge_def)

lemma ex_filter_0:
  "filter_jobs_by_score [job_a, job_b, job_c] ''py'' (Finite 0) =
     [(job_a, Finite 100), (job_b, Finite 50), (job_c, Finite 0)]"
  by (simp add: filter_jobs_eq job_descriptions ex_score_full ex_score_half ex_score_empty float_ge_def)

text \<open>
  C2. A job description without any token scores exactly 0, whatever the resume; the empty
  string is such a description. A posting with such a description is among the results of
  the filter exactly when the threshold is a finite number that is at most 0, or minus
  infinity: no strictly positive threshold (and no NaN) lets it pass.
\<close>

theorem empty_vocabulary_scores_zero:
  "normalize_words [] = []
   \<and> (normalize_words d = [] \<longrightarrow>
        ats_score resume d = Finite 0
        \<and> (description job = d \<longrightarrow>
             ((job, s) \<in> set (filter_jobs_by_score jobs resume t) \<longleftrightarrow>
                job \<in> set jobs \<and> s = Finite 0 \<and> (t = NegInf \<or> (\<exists>x. x \<le> 0 \<and> t = Finite x)))))"
proof -
  have "float_ge (Finite 0) t \<longleftrightarrow> t = NegInf \<or> (\<exists>x. x \<le> 0 \<and> t = Finite x)"
    by (simp add: float_ge_def float_le_zero_iff)
  then show ?thesis
    by (auto simp: normalize_words_Nil ats_score_no_tokens filter_jobs_mem)
qed

theorem empty_vocabulary_scores_zero_witness:
  "normalize_words [] = []
   \<and> ats_score ''py'' [] = Finite 0
   \<and> (job_c, Finite 0) \<in> set (filter_jobs_by_score [job_a, job_b, job_c] ''py'' (Finite 0))
   \<and> (job_c, Finite 0) \<notin> set (filter_jobs_by_score [job_a, job_b, job_c] ''py'' (Finite 80))"
proof -
  note t = empty_vocabulary_scores_zero[of "[]" "''py''" job_c "Finite 0" "[job_a, job_b, job_c]"]
  have n: "normalize_words [] = []" using t[of "Finite 0"] by blast
  have d: "description job_c = []" by (rule job_descriptions)
  have "ats_score ''py'' [] = Finite 0" using t[of "Finite 0"] n by blast
  moreover have "(job_c, Finite 0) \<in> set (filter_jobs_by_score [job_a, job_b, job_c] ''py'' (Finite 0))"
    using t[of "Finite 0"] n d by simp
  moreover have "(job_c, Finite 0) \<notin> set (filter_jobs_by_score [job_a, job_b, job_c] ''py'' (Finite 80))"
    using t[of "Finite 80"] n d by simp
  ultimately show ?thesis using n by simp
qed

text \<open>
  C5. The filter returns, in the order of the input, exactly the postings whose score
  reaches the threshold, each paired with \<open>ats_score\<close> of the resume against its own
  description; the postings of the result are a subsequence of the input. The function is a
  function of its three arguments only.
\<close>

theorem filter_jobs_by_score_spec:
  "filter_jobs_by_score jobs resume threshold =
     map (\<lambda>job. (job, ats_score resume (description job)))
       (filter (\<lambda>job. float_ge (ats_score resume (description job)) threshold) jobs)
   \<and> subseq (map fst (filter_jobs_by_score jobs resume threshold)) jobs"
proof -
  have "map fst (filter_jobs_by_score jobs resume threshold) =
      filter (\<lambda>job. float_ge (ats_score resume (description job)) threshold) jobs"
    by (simp add: filter_jobs_eq comp_def)
  then show ?thesis by (simp add: filter_jobs_eq)
qed

text \<open>
  C6. The filter is monotone in the threshold: when \<open>t \<le> t'\<close> (as floats, so neither is
  NaN), what is retained at \<open>t'\<close> is a subsequence of what is retained at \<open>t\<close>.
\<close>

theorem filter_threshold_monotone:
  "float_le t t' \<Longrightarrow>
     subseq (filter_jobs_by_score jobs resume t') (filter_jobs_by_score jobs resume t)
     \<and> set (filter_jobs_by_score jobs resume t') \<subseteq> set (filter_jobs_by_score jobs resume t)"
proof -
  assume le: "float_le t t'"
  have imp: "\<And>job. float_ge (ats_score resume (description job)) t'
      \<Longrightarrow> float_ge (ats_score resume (description job)) t"
    unfolding float_ge_def using le by (rule float_le_trans)
  have "subseq (filter (\<lambda>job. float_ge (ats_score resume (description job)) t') jobs)
          (filter (\<lambda>job. float_ge (ats_score resume (description job)) t) jobs)"
    using imp by (rule filter_mono_subseq)
  then have s: "subseq (filter_jobs_by_score jobs resume t') (filter_jobs_by_score jobs resume t)"
    unfolding filter_jobs_eq by (rule subseq_map)
  have "set (filter_jobs_by_score jobs resume t') \<subseteq> set (filter_jobs_by_score jobs resume t)"
    using imp by (auto simp: filter_jobs_eq)
  with s show ?thesis by simp
qed

theorem filter_threshold_monotone_witness:
  "float_le (Finite 50) (Finite 80)
   \<and> filter_jobs_by_score [job_a, job_b, job_c] ''py'' (Finite 80) = [(job_a, Finite 100)]
   \<and> filter_jobs_by_score [job_a, job_b, job_c] ''py'' (Finite 50) =
        [(job_a, Finite 100), (job_b, Finite 50)]
   \<and> subseq (filter_jobs_by_score [job_a, job_b, job_c] ''py'' (Finite 80))
        (filter_jobs_by_score [job_a, job_b, job_c] ''py'' (Finite 50))"
proof -
  have le: "float_le (Finite 50) (Finite 80)" by simp
  from filter_threshold_monotone[OF le, of "[job_a, job_b, job_c]" "''py''"]
  have "subseq (filter_jobs_by_score [job_a, job_b, job_c] ''py'' (Finite 80))
        (filter_jobs_by_score [job_a, job_b, job_c] ''py'' (Finite 50))" by blast
  then show ?thesis using le ex_filter_80 ex_filter_50 by blast
qed

section \<open>The loader and the logger\<close>

lemma load_loop_eq: "load_loop jobs data = jobs @ map job_of_item data"
  by (induction data arbitrary: jobs) simp_all

lemma show_nat_small: "n < 10 \<Longrightarrow> show_nat n = [digit_char n]"
  by (subst show_nat.simps) simp

lemma show_nat_big: "\<not> n < 10 \<Longrightarrow> show_nat n = show_nat (n div 10) @ [digit_char (n mod 10)]"
  by (subst show_nat.simps) simp

lemma is_digit_digit_char: "d < 10 \<Longrightarrow> is_digit (digit_char d)"
  by (simp add: is_digit_def digit_char_def)

lemma is_digit_not_newline: "is_digit c \<Longrightarrow> c \<noteq> newline"
  by (auto simp: is_digit_def newline_def)

lemma show_nat_digits: "list_all is_digit (show_nat n) \<and> show_nat n \<noteq> []"
proof (induction n rule: show_nat.induct)
  case (1 n)
  show ?case
  proof (cases "n < 10")
    case True
    then show ?thesis by (simp add: show_nat_small is_digit_digit_char)
  next
    case False
    have e: "show_nat n = show_nat (n div 10) @ [digit_char (n mod 10)]"
      using False by (rule show_nat_big)
    have "n mod 10 < 10" by simp
    then have "is_digit (digit_char (n mod 10))" by (rule is_digit_digit_char)
    then show ?thesis using 1[OF False] by (simp add: e)
  qed
qed

lemma digit_chars:
  "digit_char 0 = CHR ''0''" "digit_char 1 = CHR ''1''" "digit_char 2 = CHR ''2''"
  "digit_char 3 = CHR ''3''" "digit_char 4 = CHR ''4''" "digit_char 5 = CHR ''5''"
  "digit_char 6 = CHR ''6''" "digit_char 7 = CHR ''7''" "digit_char 8 = CHR ''8''"
  "digit_char 9 = CHR ''9''" "digit_char (Suc 0) = CHR ''1''"
  by (simp_all add: digit_char_def char_of_def bit_Suc_0_iff)

lemma show_nat_examples:
  "show_nat 1 = ''1''" "show_nat 42 = ''42''" "show_nat 50 = ''50''" "show_nat 91 = ''91''"
  "show_nat 100 = ''100''" "show_nat (Suc 0) = ''1''"
  by (simp_all add: show_nat_big show_nat_small digit_chars)

lemma rhe_numeral: "round_half_even (numeral n) = numeral n"
  using rhe_of_int[of "numeral n"] by simp

lemma format_2f_examples:
  "format_2f (Finite (183 / 2)) = ''91.50''" "format_2f (Finite 100) = ''100.00''"
  "format_2f (Finite 50) = ''50.00''"
proof -
  have "round_half_even (183 / 2 * 100) = 9150"
    using rhe_of_int[of 9150] by simp
  then show "format_2f (Finite (183 / 2)) = ''91.50''"
    by (simp add: format_2f_def Let_def show_nat_examples digit_chars)
  show "format_2f (Finite 100) = ''100.00''"
    by (simp add: format_2f_def Let_def rhe_numeral show_nat_examples digit_chars)
  show "format_2f (Finite 50) = ''50.00''"
    by (simp add: format_2f_def Let_def rhe_numeral show_nat_examples digit_chars)
qed

lemma format_2f_shape:
  "\<exists>ds d1 d2. format_2f (Finite q) = (if q < 0 then ''-'' else []) @ ds @ ''.'' @ [d1, d2]
     \<and> ds \<noteq> [] \<and> list_all is_digit (ds @ [d1, d2])"
proof -
  define k where "k = nat (round_half_even (\<bar>q\<bar> * 100))"
  have a: "k mod 100 div 10 < 10" by (simp add: div_less_iff_less_mult)
  have b: "k mod 10 < 10" by simp
  have "format_2f (Finite q) = (if q < 0 then ''-'' else []) @ show_nat (k div 100) @ ''.''
      @ [digit_char (k mod 100 div 10), digit_char (k mod 10)]"
    by (simp add: format_2f_def Let_def k_def)
  moreover have "show_nat (k div 100) \<noteq> []" using show_nat_digits by blast
  moreover have "list_all is_digit (show_nat (k div 100) @ [digit_char (k mod 100 div 10), digit_char (k mod 10)])"
    using show_nat_digits[of "k div 100"] is_digit_digit_char[OF a] is_digit_digit_char[OF b] by simp
  ultimately show ?thesis by blast
qed

lemma format_2f_no_newline: "newline \<notin> set (format_2f x)"
proof (cases x)
  case (Finite q)
  obtain ds d1 d2 where f: "format_2f (Finite q) = (if q < 0 then ''-'' else []) @ ds @ ''.'' @ [d1, d2]"
    and d: "list_all is_digit (ds @ [d1, d2])"
    using format_2f_shape[of q] by blast
  have "newline \<notin> set (ds @ [d1, d2])"
    using d is_digit_not_newline by (auto simp: list_all_iff)
  then show ?thesis by (auto simp: Finite f newline_def)
qed (simp_all add: format_2f_def newline_def)

lemma log_entry_split: "log_entry ts job score = ts @ log_entry [] job score"
  by (simp add: log_entry_def)

lemma log_application_content:
  "file_content (log_application clock p job score w) p =
     file_content w p @ log_entry (clock (ticks w)) job score"
  by (simp add: log_application_def file_content_def Let_def)

lemma log_application_other:
  "p' \<noteq> p \<Longrightarrow> files (log_application clock p job score w) p' = files w p'"
  by (simp add: log_application_def Let_def)

lemma log_application_ticks: "ticks (log_application clock p job score w) = Suc (ticks w)"
  by (simp add: log_application_def Let_def)

lemma apply_to_jobs_content:
  "file_content (apply_to_jobs clock pairs p w) p =
     file_content w p @ concat (batch_entries clock (ticks w) pairs)"
proof (induction pairs arbitrary: w)
  case Nil
  then show ?case by simp
next
  case (Cons x pairs)
  obtain job score where x: "x = (job, score)" by (cases x)
  show ?case
    by (simp add: x Cons.IH log_application_content log_application_ticks)
qed

lemma apply_to_jobs_other:
  "p' \<noteq> p \<Longrightarrow> files (apply_to_jobs clock pairs p w) p' = files w p'"
proof (induction pairs arbitrary: w)
  case Nil
  then show ?case by simp
next
  case (Cons x pairs)
  obtain job score where x: "x = (job, score)" by (cases x)
  show ?case using Cons.prems
    by (simp add: x Cons.IH log_application_other)
qed

lemma apply_to_jobs_ticks: "ticks (apply_to_jobs clock pairs p w) = ticks w + length pairs"
proof (induction pairs arbitrary: w)
  case Nil
  then show ?case by simp
next
  case (Cons x pairs)
  obtain job score where x: "x = (job, score)" by (cases x)
  show ?case by (simp add: x Cons.IH log_application_ticks)
qed

lemma batch_entries_length: "length (batch_entries clock t pairs) = length pairs"
  by (induction clock t pairs rule: batch_entries.induct) simp_all

lemma batch_entries_zip:
  "batch_entries clock t pairs =
     map2 (@) (map clock [t..<t + length pairs]) (entry_bodies pairs)"
proof (induction clock t pairs rule: batch_entries.induct)
  case (1 clock t)
  then show ?case by (simp add: entry_bodies_def)
next
  case (2 clock t job score rest)
  have "[t..<t + Suc (length rest)] = t # [Suc t..<t + Suc (length rest)]"
    by (rule upt_conv_Cons) simp
  then have "[t..<t + length ((job, score) # rest)] = t # [Suc t..<Suc t + length rest]"
    by simp
  then show ?case
    using 2 log_entry_split[of "clock t" job score] by (simp add: entry_bodies_def)
qed


lemma run_once_cases:
  "run_once clock a w = Inr (after_pass clock a w)
   \<or> (run_once clock a w = Inl TypeError \<and> after_pass clock a w = w \<and> eligible a = [])"
proof (cases "seen_jobs (load_jobs (arg_jobs a))")
  case (Inl e)
  then show ?thesis
    by (cases e) (simp add: run_once_def after_pass_def eligible_def)
next
  case (Inr jobs)
  then show ?thesis
    by (simp add: run_once_def after_pass_def Let_def)
qed

lemma after_pass_eq: "after_pass clock a w = apply_to_jobs clock (eligible a) (arg_log a) w"
proof (cases "seen_jobs (load_jobs (arg_jobs a))")
  case (Inl e)
  then show ?thesis
    by (simp add: run_once_def after_pass_def eligible_def)
next
  case (Inr jobs)
  then show ?thesis
    by (cases "filter_jobs_by_score jobs (arg_resume a) (arg_threshold a)")
      (simp_all add: run_once_def after_pass_def eligible_def Let_def)
qed

lemma after_pass_content:
  "file_content (after_pass clock a w) (arg_log a) =
     file_content w (arg_log a) @ concat (batch_entries clock (ticks w) (eligible a))"
  by (simp add: after_pass_eq apply_to_jobs_content)

lemma after_pass_ticks: "ticks (after_pass clock a w) = ticks w + length (eligible a)"
  by (simp add: after_pass_eq apply_to_jobs_ticks)

lemma after_pass_other: "p' \<noteq> arg_log a \<Longrightarrow> files (after_pass clock a w) p' = files w p'"
  by (simp add: after_pass_eq apply_to_jobs_other)

lemma log_entry_newlines:
  "count_list (log_entry ts job score) newline =
     Suc (count_list (ts @ job_id job @ title job @ company job @ location job @ url job) newline)"
proof -
  have "count_list (format_2f score) newline = 0"
    using format_2f_no_newline[of score] by (simp add: count_list_0_iff)
  then show ?thesis by (simp add: log_entry_def newline_def)
qed

lemma load_jobs_eq: "load_jobs data = map job_of_item data"
  by (simp add: load_jobs_def load_loop_eq)

lemma job_of_item_empty:
  "job_of_item Map.empty =
     \<lparr>l_job_id = [], l_title = JStr [], l_company = JStr [], l_location = JStr [],
      l_description = JStr [], l_url = JStr []\<rparr>"
  by (simp add: job_of_item_def dict_get_def)

lemma job_of_item_a:
  "job_of_item item_a =
     \<lparr>l_job_id = ''1'', l_title = JStr ''Dev'', l_company = JStr ''Acme'',
      l_location = JStr ''Remote'', l_description = JStr ''py'', l_url = JStr ''http://x/1''\<rparr>"
  by (simp add: job_of_item_def item_a_def dict_get_def show_int_def show_nat_examples)

lemma job_of_item_bad:
  "job_of_item item_bad =
     \<lparr>l_job_id = ''1'', l_title = JInt 5, l_company = JStr [], l_location = JStr [],
      l_description = JNull, l_url = JStr []\<rparr>"
  by (simp add: job_of_item_def item_bad_def dict_get_def show_int_def show_nat_examples)

lemma as_job_item_a: "as_job (job_of_item item_a) = Inr job_a"
  by (simp add: job_of_item_a as_job_def job_a_def)

lemma as_job_item_blank: "as_job (job_of_item item_blank) = Inr job_blank"
  by (simp add: item_blank_def job_of_item_empty as_job_def job_blank_def)

lemma as_job_item_bad: "as_job (job_of_item item_bad) = Inl TypeError"
  by (simp add: job_of_item_bad as_job_def)

text \<open>A pass sees a list of jobs exactly when every loaded description is a \<^verbatim>\<open>str\<close>.\<close>

lemma as_job_Inr_iff: "(\<exists>x. as_job j = Inr x) \<longleftrightarrow> (\<exists>d. l_description j = JStr d)"
  by (cases "l_description j") (simp_all add: as_job_def)

lemma seen_jobs_Inr_iff:
  "(\<exists>xs. seen_jobs js = Inr xs) \<longleftrightarrow> (\<forall>j \<in> set js. \<exists>d. l_description j = JStr d)"
proof (induction js)
  case Nil
  then show ?case by simp
next
  case (Cons j js)
  show ?case
  proof (cases "as_job j")
    case (Inl e)
    then have "\<not> (\<exists>d. l_description j = JStr d)"
      using as_job_Inr_iff[of j] by simp
    then show ?thesis using Inl by simp
  next
    case (Inr x)
    then have "\<exists>d. l_description j = JStr d"
      using as_job_Inr_iff[of j] by auto
    then show ?thesis using Inr Cons.IH by (cases "seen_jobs js") auto
  qed
qed

text \<open>
  C7. The loader returns one job for each record, in the order of the records; a key that
  a record does not have gives the empty string, and the value of \<^verbatim>\<open>id\<close> goes through
  \<^verbatim>\<open>str()\<close>. The five other fields are not made text: each holds the value of the record
  as it is, whatever its kind, although the fields of \<^verbatim>\<open>Job\<close> are declared \<^verbatim>\<open>str\<close> and the
  value of \<^verbatim>\<open>id\<close>, beside them, is converted. For the record
  \<^verbatim>\<open>{"id": 1, "title": 5, "description": null}\<close> the loaded job has the integer 5 as its
  title and \<^verbatim>\<open>None\<close> as its description, and a pass over a jobs file with this record
  raises \<^verbatim>\<open>TypeError\<close> in the filter, before it logs anything.
\<close>

theorem load_jobs_stores_values:
  "load_jobs data = map job_of_item data
   \<and> length (load_jobs data) = length data
   \<and> job_of_item Map.empty =
        \<lparr>l_job_id = [], l_title = JStr [], l_company = JStr [], l_location = JStr [],
         l_description = JStr [], l_url = JStr []\<rparr>
   \<and> l_job_id (job_of_item (item(''id'' \<mapsto> v))) = py_str v
   \<and> l_title (job_of_item (item(''title'' \<mapsto> v))) = v
   \<and> l_company (job_of_item (item(''company'' \<mapsto> v))) = v
   \<and> l_location (job_of_item (item(''location'' \<mapsto> v))) = v
   \<and> l_description (job_of_item (item(''description'' \<mapsto> v))) = v
   \<and> l_url (job_of_item (item(''url'' \<mapsto> v))) = v
   \<and> py_str (JStr s) = s
   \<and> py_str (JInt 42) = ''42''
   \<and> load_jobs [item_a, item_bad] =
        [\<lparr>l_job_id = ''1'', l_title = JStr ''Dev'', l_company = JStr ''Acme'',
          l_location = JStr ''Remote'', l_description = JStr ''py'',
          l_url = JStr ''http://x/1''\<rparr>,
         \<lparr>l_job_id = ''1'', l_title = JInt 5, l_company = JStr [], l_location = JStr [],
          l_description = JNull, l_url = JStr []\<rparr>]
   \<and> l_title (job_of_item item_bad) \<noteq> JStr (py_str (JInt 5))
   \<and> seen_jobs (load_jobs [item_a, item_bad]) = Inl TypeError
   \<and> run_once clock args_bad w = Inl TypeError"
proof -
  have "py_str (JInt 42) = ''42''"
    by (simp add: show_int_def show_nat_examples)
  moreover have "l_job_id (job_of_item (item(''id'' \<mapsto> v))) = py_str v"
    by (simp add: job_of_item_def dict_get_def)
  moreover have "l_title (job_of_item (item(''title'' \<mapsto> v))) = v"
    by (simp add: job_of_item_def dict_get_def)
  moreover have "l_company (job_of_item (item(''company'' \<mapsto> v))) = v"
    by (simp add: job_of_item_def dict_get_def)
  moreover have "l_location (job_of_item (item(''location'' \<mapsto> v))) = v"
    by (simp add: job_of_item_def dict_get_def)
  moreover have "l_description (job_of_item (item(''description'' \<mapsto> v))) = v"
    by (simp add: job_of_item_def dict_get_def)
  moreover have "l_url (job_of_item (item(''url'' \<mapsto> v))) = v"
    by (simp add: job_of_item_def dict_get_def)
  moreover have s: "seen_jobs (load_jobs [item_a, item_bad]) = Inl TypeError"
    by (simp add: load_jobs_eq as_job_item_a as_job_item_bad)
  moreover have "run_once clock args_bad w = Inl TypeError"
    using s by (simp add: run_once_def args_bad_def args0_def)
  ultimately show ?thesis
    by (simp add: load_jobs_eq job_of_item_empty job_of_item_a job_of_item_bad)
qed

text \<open>
  C8, as the code has it. \<^verbatim>\<open>log_application\<close> appends to the log file exactly the text
  \<^verbatim>\<open>timestamp | APPLIED | id | title | company | location | score | url\<close> and one newline
  behind it; \<^verbatim>\<open>apply_to_jobs\<close> appends one such entry for each pair, in order. A finite
  score is written with its integer digits, a point and exactly two digits. The fields are
  written as they are: the entry has one newline more than the timestamp and the logged
  fields contain, so it is exactly one line when these contain none. The posting of the
  example, with the score 91.5, is rendered as the specification says.
\<close>

theorem log_application_entry:
  "file_content (log_application clock log_path job score w) log_path =
     file_content w log_path @ log_entry (clock (ticks w)) job score
   \<and> log_entry ts job score =
        ts @ '' | APPLIED | '' @ job_id job @ '' | '' @ title job @ '' | '' @ company job
        @ '' | '' @ location job @ '' | '' @ format_2f score @ '' | '' @ url job @ [newline]
   \<and> (\<exists>ds d1 d2. format_2f (Finite q) = (if q < 0 then ''-'' else []) @ ds @ ''.'' @ [d1, d2]
         \<and> ds \<noteq> [] \<and> list_all is_digit (ds @ [d1, d2]))
   \<and> count_list (log_entry ts job score) newline =
        Suc (count_list (ts @ job_id job @ title job @ company job @ location job @ url job) newline)
   \<and> (newline \<notin> set (ts @ job_id job @ title job @ company job @ location job @ url job)
        \<longrightarrow> count_list (log_entry ts job score) newline = 1)
   \<and> log_entry ts \<lparr>job_id = ''42'', title = ''Backend Engineer'', company = ''Acme'',
                    location = ''Remote'', description = d, url = ''http://x/42''\<rparr>
        (Finite (183 / 2)) =
        ts @ '' | APPLIED | 42 | Backend Engineer | Acme | Remote | 91.50 | http://x/42'' @ [newline]
   \<and> file_content (apply_to_jobs clock pairs log_path w) log_path =
        file_content w log_path @ concat (batch_entries clock (ticks w) pairs)
   \<and> length (batch_entries clock (ticks w) pairs) = length pairs"
proof -
  have "newline \<notin> set (ts @ job_id job @ title job @ company job @ location job @ url job)
      \<longrightarrow> count_list (log_entry ts job score) newline = 1"
    by (simp only: log_entry_newlines) (simp add: count_list_0_iff)
  moreover have "log_entry ts \<lparr>job_id = ''42'', title = ''Backend Engineer'', company = ''Acme'',
                    location = ''Remote'', description = d, url = ''http://x/42''\<rparr>
        (Finite (183 / 2)) =
        ts @ '' | APPLIED | 42 | Backend Engineer | Acme | Remote | 91.50 | http://x/42'' @ [newline]"
    by (simp add: log_entry_def format_2f_examples)
  moreover have "log_entry ts job score =
        ts @ '' | APPLIED | '' @ job_id job @ '' | '' @ title job @ '' | '' @ company job
        @ '' | '' @ location job @ '' | '' @ format_2f score @ '' | '' @ url job @ [newline]"
    by (simp add: log_entry_def)
  ultimately show ?thesis
    using format_2f_shape[of q] log_entry_newlines[of ts job score]
    by (simp only: log_application_content apply_to_jobs_content batch_entries_length)
qed

theorem log_application_entry_witness:
  "newline \<notin> set (''t'' @ job_id job_a @ title job_a @ company job_a @ location job_a @ url job_a)
   \<and> count_list (log_entry ''t'' job_a (Finite 100)) newline = 1
   \<and> log_entry ''t'' job_a (Finite 100) =
        ''t | APPLIED | 1 | Dev | Acme | Remote | 100.00 | http://x/1'' @ [newline]"
proof -
  have n: "newline \<notin> set (''t'' @ job_id job_a @ title job_a @ company job_a @ location job_a @ url job_a)"
    by (simp add: job_a_def newline_def)
  have "count_list (log_entry ''t'' job_a (Finite 100)) newline = 1"
    using log_application_entry[of _ _ job_a "Finite 100" _ "''t''"] n by blast
  moreover have "log_entry ''t'' job_a (Finite 100) =
        ''t | APPLIED | 1 | Dev | Acme | Remote | 100.00 | http://x/1'' @ [newline]"
    by (simp add: log_entry_def job_a_def format_2f_examples)
  ultimately show ?thesis using n by simp
qed

text \<open>
  C8, as the claim states it, fails for a posting whose title holds a newline: the code
  writes the title as it is, and the text appended for this one posting is two lines.
\<close>

theorem log_application_two_lines:
  "count_list
     (file_content (log_application clock0 ''applications.log'' job_nl (Finite 50) world0)
        ''applications.log'') newline = 2"
proof -
  have "file_content world0 ''applications.log'' = []"
    by (simp add: file_content_def world0_def)
  then have "file_content (log_application clock0 ''applications.log'' job_nl (Finite 50) world0)
        ''applications.log'' = log_entry (clock0 (ticks world0)) job_nl (Finite 50)"
    by (simp add: log_application_content)
  moreover have "count_list (log_entry (clock0 (ticks world0)) job_nl (Finite 50)) newline =
      Suc (count_list (clock0 (ticks world0) @ job_id job_nl @ title job_nl @ company job_nl
             @ location job_nl @ url job_nl) newline)"
    by (rule log_entry_newlines)
  moreover have "count_list (clock0 (ticks world0) @ job_id job_nl @ title job_nl @ company job_nl
             @ location job_nl @ url job_nl) newline = 1"
    by (simp add: job_nl_def clock0_def newline_def)
  ultimately show ?thesis by simp
qed

lemma batch_entries_fixed_clock:
  "(\<forall>i. clock i = ts) \<Longrightarrow>
     batch_entries clock t pairs = map (\<lambda>(job, score). log_entry ts job score) pairs"
  by (induction clock t pairs rule: batch_entries.induct) simp_all

lemma batch_entries_const:
  "(\<forall>i. clock i = ts) \<Longrightarrow> batch_entries clock t' pairs = batch_entries clock t pairs"
  by (simp add: batch_entries_fixed_clock)

lemma eligible_args0: "eligible args0 = [(job_a, Finite 100)]"
proof -
  have "seen_jobs (load_jobs (arg_jobs args0)) = Inr [job_a, job_blank]"
    by (simp add: args0_def load_jobs_eq as_job_item_a as_job_item_blank)
  moreover have "description job_blank = []" by (simp add: job_blank_def)
  ultimately show ?thesis
    by (simp add: eligible_def args0_def filter_jobs_eq job_descriptions ex_score_full
        ex_score_empty float_ge_def)
qed

text \<open>
  C9. The logger only appends: after \<^verbatim>\<open>log_application\<close>, after \<^verbatim>\<open>apply_to_jobs\<close> and
  after a whole pass the old content of the log file is a prefix of the new content, and
  a pass leaves every other file as it was. What a pass appends is a function of the
  eligible postings and of the clock alone. Two passes with the same arguments append
  two batches for the same eligible postings: entry by entry the same text behind the
  timestamp, the timestamps being the successive readings of the clock, so that the two
  batches are equal when the clock shows the same text; together they hold twice the
  entries of the first. Nothing is left out in the second pass. A pass either returns the
  world that these equations describe, or raises \<^verbatim>\<open>TypeError\<close> in the filter and leaves the
  world as it was.
\<close>

theorem log_append_only:
  "prefix (file_content w p) (file_content (log_application clock p job score w) p)
   \<and> prefix (file_content w p) (file_content (apply_to_jobs clock pairs p w) p)
   \<and> prefix (file_content w (arg_log a)) (file_content (after_pass clock a w) (arg_log a))
   \<and> (p' \<noteq> arg_log a \<longrightarrow> files (after_pass clock a w) p' = files w p')
   \<and> file_content (after_pass clock a w) (arg_log a) =
        file_content w (arg_log a) @ concat (batch_entries clock (ticks w) (eligible a))
   \<and> file_content (after_pass clock a (after_pass clock a w)) (arg_log a) =
        file_content w (arg_log a) @ concat (batch_entries clock (ticks w) (eligible a))
        @ concat (batch_entries clock (ticks w + length (eligible a)) (eligible a))
   \<and> batch_entries clock t (eligible a) =
        map2 (@) (map clock [t..<t + length (eligible a)]) (entry_bodies (eligible a))
   \<and> length (batch_entries clock (ticks w) (eligible a)
              @ batch_entries clock (ticks w + length (eligible a)) (eligible a)) =
        2 * length (batch_entries clock (ticks w) (eligible a))
   \<and> ((\<forall>i. clock i = ts) \<longrightarrow>
        batch_entries clock t' (eligible a) = batch_entries clock t (eligible a))
   \<and> (run_once clock a w = Inr (after_pass clock a w)
        \<or> (run_once clock a w = Inl TypeError \<and> after_pass clock a w = w \<and> eligible a = []))"
proof -
  have "prefix (file_content w p) (file_content (log_application clock p job score w) p)"
    by (simp add: log_application_content)
  moreover have "prefix (file_content w p) (file_content (apply_to_jobs clock pairs p w) p)"
    by (simp add: apply_to_jobs_content)
  moreover have "prefix (file_content w (arg_log a)) (file_content (after_pass clock a w) (arg_log a))"
    by (simp add: after_pass_content)
  moreover have "p' \<noteq> arg_log a \<longrightarrow> files (after_pass clock a w) p' = files w p'"
    by (simp add: after_pass_other)
  moreover have "file_content (after_pass clock a (after_pass clock a w)) (arg_log a) =
        file_content w (arg_log a) @ concat (batch_entries clock (ticks w) (eligible a))
        @ concat (batch_entries clock (ticks w + length (eligible a)) (eligible a))"
    by (simp add: after_pass_content after_pass_ticks)
  moreover have "(\<forall>i. clock i = ts) \<longrightarrow>
        batch_entries clock t' (eligible a) = batch_entries clock t (eligible a)"
    using batch_entries_const by blast
  moreover have "run_once clock a w = Inr (after_pass clock a w)
        \<or> (run_once clock a w = Inl TypeError \<and> after_pass clock a w = w \<and> eligible a = [])"
    by (rule run_once_cases)
  ultimately show ?thesis
    using batch_entries_zip[of clock t "eligible a"]
    by (simp add: after_pass_content batch_entries_length)
qed

theorem log_append_only_witness:
  "''resume.txt'' \<noteq> arg_log args0
   \<and> files (after_pass clock0 args0 world0) ''resume.txt'' = files world0 ''resume.txt''
   \<and> eligible args0 = [(job_a, Finite 100)]
   \<and> run_once clock0 args0 world0 = Inr (after_pass clock0 args0 world0)
   \<and> file_content (after_pass clock0 args0 world0) (arg_log args0) =
        ''t | APPLIED | 1 | Dev | Acme | Remote | 100.00 | http://x/1'' @ [newline]
   \<and> file_content (after_pass clock0 args0 (after_pass clock0 args0 world0)) (arg_log args0) =
        ''t | APPLIED | 1 | Dev | Acme | Remote | 100.00 | http://x/1'' @ [newline]
        @ ''t | APPLIED | 1 | Dev | Acme | Remote | 100.00 | http://x/1'' @ [newline]
   \<and> batch_entries clock0 1 (eligible args0) = batch_entries clock0 0 (eligible args0)"
proof -
  note t = log_append_only[of world0 _ clock0 _ _ _ args0 "''resume.txt''" 0 "''t''" 1]
  have ne: "''resume.txt'' \<noteq> arg_log args0" by (simp add: args0_def)
  have c: "\<forall>i. clock0 i = ''t''" by (simp add: clock0_def)
  have w0: "file_content world0 (arg_log args0) = []" "ticks world0 = 0"
    by (simp_all add: file_content_def world0_def)
  have e: "log_entry ''t'' job_a (Finite 100) =
      ''t | APPLIED | 1 | Dev | Acme | Remote | 100.00 | http://x/1'' @ [newline]"
    by (simp add: log_entry_def job_a_def format_2f_examples)
  have "files (after_pass clock0 args0 world0) ''resume.txt'' = files world0 ''resume.txt''"
    using t ne by blast
  moreover have "batch_entries clock0 1 (eligible args0) = batch_entries clock0 0 (eligible args0)"
    using t c by blast
  moreover have "file_content (after_pass clock0 args0 world0) (arg_log args0) =
      file_content world0 (arg_log args0) @ concat (batch_entries clock0 (ticks world0) (eligible args0))"
    using t by blast
  moreover have "file_content (after_pass clock0 args0 (after_pass clock0 args0 world0)) (arg_log args0) =
        file_content world0 (arg_log args0) @ concat (batch_entries clock0 (ticks world0) (eligible args0))
        @ concat (batch_entries clock0 (ticks world0 + length (eligible args0)) (eligible args0))"
    using t by blast
  moreover have "run_once clock0 args0 world0 = Inr (after_pass clock0 args0 world0)
      \<or> (run_once clock0 args0 world0 = Inl TypeError \<and> after_pass clock0 args0 world0 = world0
          \<and> eligible args0 = [])"
    using t by blast
  then have "run_once clock0 args0 world0 = Inr (after_pass clock0 args0 world0)"
    by (simp add: eligible_args0)
  ultimately show ?thesis
    using ne by (simp add: w0 eligible_args0 clock0_def e)
qed

section \<open>Texts built from words\<close>

lemma space_not_cont: "\<not> is_cont (CHR '' '')"
  by (simp add: is_cont_def is_letter_def is_lower_def is_upper_def is_digit_def)

lemma match_word_word:
  assumes "is_word w"
  shows "match_word w = Some (w, [])"
proof -
  obtain c r where w: "w = c # r" and c: "is_letter c" and r: "r \<noteq> []" and a: "list_all is_cont r"
    using assms by (cases w) (auto simp: is_word_def)
  have tw: "takeWhile is_cont r = r" and dw: "dropWhile is_cont r = []"
    using a by (simp_all add: list_all_iff)
  show ?thesis by (simp add: w match_word_def tw dw c r)
qed

lemma finditer_from_word:
  assumes "is_word w"
  shows "finditer_from k w = [\<lparr>start = k, stop = k + length w, group0 = w\<rparr>]"
proof -
  obtain c r where w: "w = c # r" using assms by (cases w) (auto simp: is_word_def)
  have "match_word (c # r) = Some (c # r, [])" using match_word_word[OF assms] by (simp add: w)
  from finditer_from_Some[OF this, of k] show ?thesis by (simp add: w)
qed

lemma join_words_Cons: "join_words (w # ws) = w @ CHR '' '' # join_words ws"
  by (simp add: join_words_def)

lemma finditer_join_words:
  "list_all is_word ws \<Longrightarrow> map group0 (finditer_from k (join_words ws)) = ws"
proof (induction ws arbitrary: k)
  case Nil
  then show ?case by (simp add: join_words_def)
next
  case (Cons w ws)
  then have w: "is_word w" and ws: "list_all is_word ws" by simp_all
  have "finditer_from k (join_words (w # ws)) =
      finditer_from k w @ finditer_from (Suc (k + length w)) (join_words ws)"
    unfolding join_words_Cons by (rule finditer_from_sep[OF space_not_cont])
  then show ?case
    using Cons.IH[OF ws] by (simp add: finditer_from_word[OF w])
qed

lemma normalize_join_words:
  "list_all is_word ws \<Longrightarrow> normalize_words (join_words ws) = map lower ws"
proof -
  assume a: "list_all is_word ws"
  have "normalize_words (join_words ws) = map lower (map group0 (finditer_from 0 (join_words ws)))"
    by (simp add: normalize_words_def finditer_def)
  then show ?thesis by (simp only: finditer_join_words[OF a])
qed

lemma abc_word_is_word: "is_word (abc_word i)"
proof -
  have a: "is_letter (CHR ''a'')" by (simp add: is_letter_def is_lower_def)
  have b: "is_cont (CHR ''b'')" by (simp add: is_cont_def is_letter_def is_lower_def)
  show ?thesis by (simp add: abc_word_def is_word_def list_all_iff a b)
qed

lemma abc_word_lower: "lower (abc_word i) = abc_word i"
  by (simp add: abc_word_def lower_def lower_char_def is_upper_def)

lemma abc_word_length: "length (abc_word i) = i + 2"
  by (simp add: abc_word_def)

lemma abc_word_inj: "inj abc_word"
proof (rule injI)
  fix i j
  assume "abc_word i = abc_word j"
  then have "length (abc_word i) = length (abc_word j)" by simp
  then show "i = j" by (simp add: abc_word_length)
qed

lemma normalize_abc_text: "normalize_words (abc_text n) = map abc_word [0..<n]"
proof -
  have "list_all is_word (map abc_word [0..<n])"
    by (simp add: list_all_iff abc_word_is_word)
  then have "normalize_words (abc_text n) = map lower (map abc_word [0..<n])"
    unfolding abc_text_def by (rule normalize_join_words)
  then show ?thesis by (simp add: abc_word_lower)
qed

lemma abc_text_tokens: "set (normalize_words (abc_text n)) = abc_word ` {0..<n}"
  by (simp add: normalize_abc_text)

lemma abc_text_card: "card (set (normalize_words (abc_text n))) = n"
  using card_image[of abc_word "{0..<n}"] abc_word_inj
  by (simp add: abc_text_tokens inj_on_def inj_def)

lemma abc_text_card_inter:
  assumes "m \<le> n"
  shows "card (set (normalize_words (abc_text m)) \<inter> set (normalize_words (abc_text n))) = m"
proof -
  have "abc_word ` {0..<m} \<subseteq> abc_word ` {0..<n}" using assms by auto
  then have "abc_word ` {0..<m} \<inter> abc_word ` {0..<n} = abc_word ` {0..<m}" by blast
  then show ?thesis using abc_text_card[of m] by (simp add: abc_text_tokens)
qed

lemma ats_score_abc:
  assumes "m \<le> n" and "0 < n"
  shows "ats_score (abc_text m) (abc_text n) = Finite (py_round2 (py_mul (py_truediv m n) 100))"
proof -
  have "card (set (normalize_words (abc_text n))) \<noteq> 0" using assms(2) by (simp add: abc_text_card)
  then have "set (normalize_words (abc_text n)) \<noteq> {}" by auto
  then show ?thesis
    by (simp add: ats_score_cards abc_text_card abc_text_card_inter[OF assms(1)])
qed

section \<open>The score and the exact formula\<close>

text \<open>
  C1, as the code has it. With \<open>m\<close> tokens of the job description found in the resume,
  out of \<open>n > 0\<close>, the score is the float nearest to \<open>k / 100\<close>, where \<open>k\<close> is the
  integer nearest (a tie going to the even one) to 100 times the float product \<open>y\<close> of the
  float quotient \<open>m / n\<close> by 100. This \<open>y\<close> is within \<open>2 ^ -45\<close> of the exact percentage
  \<open>p = 100 * m / n\<close>, so \<open>k / 100\<close> is within \<open>0.005 + 2 ^ -45\<close> of \<open>p\<close>, and the score is
  the float nearest to \<open>p\<close> rounded to two decimals whenever \<open>100 * p\<close> is farther than
  \<open>100 * 2 ^ -45\<close> from a tie of that rounding. Without tokens in the job description the
  score is 0. The score is a finite float between 0 and 100 in every case.
\<close>

theorem ats_score_formula:
  "(set (normalize_words j) = {} \<longrightarrow> ats_score r j = Finite 0)
   \<and> (set (normalize_words j) \<noteq> {} \<longrightarrow>
        (let m = card (set (normalize_words r) \<inter> set (normalize_words j));
             n = card (set (normalize_words j));
             y = py_mul (py_truediv m n) 100;
             p = exact_percentage m n
         in ats_score r j = Finite (to_double (of_int (round_half_even (y * 100)) / 100))
            \<and> \<bar>y - p\<bar> * 2 ^ 45 \<le> 1
            \<and> 0 \<le> round_half_even (y * 100) \<and> round_half_even (y * 100) \<le> 10000
            \<and> \<bar>of_int (round_half_even (y * 100)) / 100 - p\<bar> \<le> 1 / 200 + 1 / 2 ^ 45
            \<and> (\<bar>p * 100 - of_int (round_half_even (p * 100))\<bar> < 1 / 2 - 100 / 2 ^ 45
                 \<longrightarrow> ats_score r j = Finite (to_double (round2_exact p)))))
   \<and> (\<exists>q. ats_score r j = Finite q \<and> 0 \<le> q \<and> q \<le> 100)"
proof (cases "set (normalize_words j) = {}")
  case True
  then show ?thesis by (simp add: ats_score_def)
next
  case False
  define m where "m = card (set (normalize_words r) \<inter> set (normalize_words j))"
  define n where "n = card (set (normalize_words j))"
  have mn: "m \<le> n"
    unfolding m_def n_def by (simp add: card_mono)
  have n: "0 < n"
    unfolding n_def using False by (simp add: card_gt_0_iff)
  have s: "ats_score r j = Finite (py_round2 (py_mul (py_truediv m n) 100))"
    using False by (simp add: ats_score_cards m_def n_def)
  note a = score_arith[OF mn n]
  have "\<exists>q. ats_score r j = Finite q \<and> 0 \<le> q \<and> q \<le> 100"
    using s a(1,2) by blast
  moreover have "ats_score r j =
      Finite (to_double (of_int (round_half_even (py_mul (py_truediv m n) 100 * 100)) / 100))"
    using s by (simp add: py_round2_def)
  moreover have "\<bar>exact_percentage m n * 100 - of_int (round_half_even (exact_percentage m n * 100))\<bar>
      < 1 / 2 - 100 / 2 ^ 45 \<longrightarrow> ats_score r j = Finite (to_double (round2_exact (exact_percentage m n)))"
    using s a(6) by simp
  ultimately show ?thesis
    using False a(3,4,5) product_error[OF mn n]
    by (simp add: Let_def m_def[symmetric] n_def[symmetric])
qed

theorem ats_score_formula_witness:
  "set (normalize_words ''py go'') \<noteq> {}
   \<and> exact_percentage (card (set (normalize_words ''py'') \<inter> set (normalize_words ''py go'')))
        (card (set (normalize_words ''py go''))) = 50
   \<and> ats_score ''py'' ''py go'' = Finite (to_double (round2_exact 50))
   \<and> ats_score ''py'' ''py go'' = Finite 50"
proof -
  have ne: "set (normalize_words ''py go'') \<noteq> {}" by (simp add: nw_py_go)
  have p: "exact_percentage (card (set (normalize_words ''py'') \<inter> set (normalize_words ''py go'')))
        (card (set (normalize_words ''py go''))) = 50"
    by (simp add: nw_py nw_py_go exact_percentage_def)
  have near: "\<bar>(50::rat) * 100 - of_int (round_half_even (50 * 100))\<bar> < 1 / 2 - 100 / 2 ^ 45"
    by (simp add: rhe_numeral)
  note t = ats_score_formula[of "''py go''" "''py''", unfolded Let_def p]
  have "ats_score ''py'' ''py go'' = Finite (to_double (round2_exact 50))"
    using t ne near by blast
  then show ?thesis using ne p ex_score_half by simp
qed

text \<open>
  C1, as the claim states it, fails when 23 of 160 tokens of the job description are in
  the resume. The exact percentage is 14.375, which every rounding to two decimals takes
  to 14.38; the float quotient times 100 is just below 14.375, and the code returns the
  float nearest to 14.37.
\<close>

theorem ats_score_23_of_160:
  "card (set (normalize_words (abc_text 160))) = 160
   \<and> card (set (normalize_words (abc_text 23)) \<inter> set (normalize_words (abc_text 160))) = 23
   \<and> exact_percentage 23 160 = 14375 / 1000
   \<and> round2_exact (exact_percentage 23 160) = 1438 / 100
   \<and> to_double (round2_exact (exact_percentage 23 160)) = 8095220330198467 / 2 ^ 49
   \<and> to_double (1437 / 100) = 8089590830664253 / 2 ^ 49
   \<and> ats_score (abc_text 23) (abc_text 160) = Finite (8089590830664253 / 2 ^ 49)
   \<and> ats_score (abc_text 23) (abc_text 160) \<noteq> Finite (to_double (round2_exact (exact_percentage 23 160)))
   \<and> ats_score (abc_text 23) (abc_text 160) \<noteq> Finite (round2_exact (exact_percentage 23 160))"
proof -
  have s: "ats_score (abc_text 23) (abc_text 160) = Finite (8089590830664253 / 2 ^ 49)"
    using ats_score_abc[of 23 160] by (simp only: code_23_160)
  have r: "round2_exact (exact_percentage 23 160) = 1438 / 100"
    using rhe_tie[of "exact_percentage 23 160 * 100" 1437]
    by (simp add: round2_exact_def exact_percentage_def)
  have t: "to_double (1437 / 100) = 8089590830664253 / 2 ^ 49"
    using to_double_eval[of "1437 / 100" 49 8089590830664253] by simp
  have e: "exact_percentage 23 160 = 14375 / 1000" by (simp add: exact_percentage_def)
  have c: "card (set (normalize_words (abc_text 160))) = 160"
    "card (set (normalize_words (abc_text 23)) \<inter> set (normalize_words (abc_text 160))) = 23"
    by (simp_all add: abc_text_card abc_text_card_inter)
  have n1: "ats_score (abc_text 23) (abc_text 160) \<noteq>
      Finite (to_double (round2_exact (exact_percentage 23 160)))"
    by (simp add: s spec_23_160)
  have n2: "ats_score (abc_text 23) (abc_text 160) \<noteq>
      Finite (round2_exact (exact_percentage 23 160))"
    by (simp add: s r)
  show ?thesis
    by (intro conjI) (rule c e r spec_23_160 t s n1 n2)+
qed

section \<open>Case, order and repetition\<close>

lemma lower_char_letter: "is_letter (lower_char c) = is_letter c"
  by (auto simp: lower_char_def is_letter_def is_upper_def is_lower_def)

lemma lower_char_cont: "is_cont (lower_char c) = is_cont c"
proof (cases "is_upper c")
  case True
  then have "is_letter c" by (simp add: is_letter_def)
  then have "is_letter (lower_char c)" by (simp add: lower_char_letter)
  then show ?thesis using \<open>is_letter c\<close> by (simp add: is_cont_def)
next
  case False
  then show ?thesis by (simp add: lower_char_def)
qed

lemma lower_char_idem: "lower_char (lower_char c) = lower_char c"
  by (auto simp: lower_char_def is_upper_def)

lemma lower_upper_char: "lower_char (upper_char c) = lower_char c"
  by (auto simp: lower_char_def upper_char_def is_upper_def is_lower_def)

lemma lower_idem: "lower (lower t) = lower t"
  by (simp add: lower_def lower_char_idem)

lemma lower_upper: "lower (upper t) = lower t"
  by (simp add: lower_def upper_def lower_upper_char)

lemma match_word_lower:
  "match_word (lower u) = map_option (\<lambda>(w, r). (lower w, lower r)) (match_word u)"
proof (cases u)
  case Nil
  then show ?thesis by (simp add: match_word_def lower_def)
next
  case (Cons c cs)
  have comp: "is_cont \<circ> lower_char = is_cont" by (simp add: fun_eq_iff lower_char_cont)
  have tw: "takeWhile is_cont (map lower_char cs) = map lower_char (takeWhile is_cont cs)"
    by (simp add: takeWhile_map comp)
  have dw: "dropWhile is_cont (map lower_char cs) = map lower_char (dropWhile is_cont cs)"
    by (simp add: dropWhile_map comp)
  show ?thesis
    by (simp add: Cons match_word_def lower_def tw dw lower_char_letter)
qed

lemma finditer_from_lower:
  "finditer_from k (lower u) = map (\<lambda>m. m\<lparr>group0 := lower (group0 m)\<rparr>) (finditer_from k u)"
proof (induction k u rule: finditer_from.induct)
  case (1 k)
  then show ?case by (simp add: lower_def)
next
  case (2 k c cs)
  have l: "lower (c # cs) = lower_char c # lower cs" by (simp add: lower_def)
  show ?case
  proof (cases "match_word (c # cs)")
    case None
    then have "match_word (lower_char c # lower cs) = None"
      using match_word_lower[of "c # cs"] by (simp add: l)
    then have "finditer_from k (lower (c # cs)) = finditer_from (Suc k) (lower cs)"
      unfolding l by (rule finditer_from_None)
    then show ?thesis
      using "2.IH"(1)[OF None] finditer_from_None[OF None, of k] by simp
  next
    case (Some p)
    obtain w rest where p: "p = (w, rest)" by (cases p)
    have mw: "match_word (c # cs) = Some (w, rest)" using Some p by simp
    then have "match_word (lower_char c # lower cs) = Some (lower w, lower rest)"
      using match_word_lower[of "c # cs"] by (simp add: l)
    then have "finditer_from k (lower (c # cs)) =
        \<lparr>start = k, stop = k + length (lower w), group0 = lower w\<rparr>
        # finditer_from (k + length (lower w)) (lower rest)"
      unfolding l by (rule finditer_from_Some)
    then show ?thesis
      using "2.IH"(2)[OF Some p[symmetric]] finditer_from_Some[OF mw, of k]
      by (simp add: lower_length)
  qed
qed

lemma normalize_words_lower: "normalize_words (lower t) = normalize_words t"
  by (simp add: normalize_words_def finditer_def finditer_from_lower comp_def lower_idem)

lemma normalize_words_cong: "lower t = lower t' \<Longrightarrow> normalize_words t = normalize_words t'"
  using normalize_words_lower[of t] normalize_words_lower[of t'] by simp

lemma normalize_words_upper: "normalize_words (upper t) = normalize_words t"
  by (rule normalize_words_cong) (rule lower_upper)

lemma ats_score_tokens:
  "set (normalize_words r) = set (normalize_words r') \<Longrightarrow>
   set (normalize_words j) = set (normalize_words j') \<Longrightarrow> ats_score r j = ats_score r' j'"
  by (simp add: ats_score_def)

text \<open>
  C4, as the code has it. The score does not change when the case of ASCII letters
  changes in either input: two texts with the same \<open>lower\<close> have the same tokens, and
  \<open>upper\<close> and \<open>lower\<close> keep the tokens of a text. It does not change either when tokens
  are put in another order or repeated: it depends on each input through the set of its
  tokens only, so texts built from word lists with the same members score the same.
\<close>

theorem ats_score_case_order_invariant:
  "ats_score (upper r) j = ats_score r j \<and> ats_score (lower r) j = ats_score r j
   \<and> ats_score r (upper j) = ats_score r j \<and> ats_score r (lower j) = ats_score r j
   \<and> ats_score (upper r) (upper j) = ats_score r j \<and> ats_score (lower r) (lower j) = ats_score r j
   \<and> (lower r = lower r' \<and> lower j = lower j' \<longrightarrow> ats_score r j = ats_score r' j')
   \<and> (set (normalize_words r) = set (normalize_words r')
        \<and> set (normalize_words j) = set (normalize_words j') \<longrightarrow> ats_score r j = ats_score r' j')
   \<and> (list_all is_word rs \<and> list_all is_word rs' \<and> list_all is_word js \<and> list_all is_word js'
        \<and> set rs = set rs' \<and> set js = set js'
        \<longrightarrow> ats_score (join_words rs) (join_words js) = ats_score (join_words rs') (join_words js'))"
proof -
  have a: "lower r = lower r' \<and> lower j = lower j' \<longrightarrow> ats_score r j = ats_score r' j'"
    using normalize_words_cong[of r r'] normalize_words_cong[of j j']
    by (simp add: ats_score_def)
  have b: "list_all is_word rs \<and> list_all is_word rs' \<and> list_all is_word js \<and> list_all is_word js'
        \<and> set rs = set rs' \<and> set js = set js'
        \<longrightarrow> ats_score (join_words rs) (join_words js) = ats_score (join_words rs') (join_words js')"
  proof (intro impI, elim conjE)
    assume w: "list_all is_word rs" "list_all is_word rs'" "list_all is_word js" "list_all is_word js'"
      and s: "set rs = set rs'" "set js = set js'"
    have "set (map lower rs) = set (map lower rs')" "set (map lower js) = set (map lower js')"
      using s by simp_all
    then show "ats_score (join_words rs) (join_words js) = ats_score (join_words rs') (join_words js')"
      by (intro ats_score_tokens) (simp_all only: normalize_join_words[OF w(1)]
          normalize_join_words[OF w(2)] normalize_join_words[OF w(3)] normalize_join_words[OF w(4)])
  qed
  show ?thesis
    using a b ats_score_tokens[of r r' j j']
    by (simp add: ats_score_def normalize_words_upper normalize_words_lower)
qed

lemma lower_examples: "lower ''PY'' = ''py''" "lower ''py'' = ''py''" "lower ''Py GO'' = ''py go''"
  "lower ''py go'' = ''py go''" "lower ''go'' = ''go''"
  by code_simp+

lemma is_word_examples: "is_word ''py''" "is_word ''go''"
  by code_simp+

theorem ats_score_case_order_invariant_witness:
  "lower ''PY'' = lower ''py'' \<and> lower ''Py GO'' = lower ''py go''
   \<and> ats_score ''PY'' ''Py GO'' = ats_score ''py'' ''py go''
   \<and> list_all is_word [''py''] \<and> list_all is_word [''py'', ''py'']
   \<and> list_all is_word [''py'', ''go''] \<and> list_all is_word [''go'', ''py'', ''go'']
   \<and> set [''py''] = set [''py'', ''py''] \<and> set [''py'', ''go''] = set [''go'', ''py'', ''go'']
   \<and> ats_score (join_words [''py'']) (join_words [''py'', ''go'']) =
        ats_score (join_words [''py'', ''py'']) (join_words [''go'', ''py'', ''go''])
   \<and> ats_score (join_words [''py'']) (join_words [''py'', ''go'']) = Finite 50"
proof -
  have l: "lower ''PY'' = lower ''py'' \<and> lower ''Py GO'' = lower ''py go''"
    by (simp add: lower_examples)
  have w: "list_all is_word [''py''] \<and> list_all is_word [''py'', ''py'']
      \<and> list_all is_word [''py'', ''go''] \<and> list_all is_word [''go'', ''py'', ''go'']"
    by (simp add: is_word_examples)
  have s: "set [''py''] = set [''py'', ''py''] \<and> set [''py'', ''go''] = set [''go'', ''py'', ''go'']"
    by auto
  have "ats_score ''PY'' ''Py GO'' = ats_score ''py'' ''py go''"
    using ats_score_case_order_invariant[of "''PY''" "''Py GO''" "''py''" "''py go''"] l by blast
  moreover have j: "ats_score (join_words [''py'']) (join_words [''py'', ''go'']) =
        ats_score (join_words [''py'', ''py'']) (join_words [''go'', ''py'', ''go''])"
    using ats_score_case_order_invariant[of _ _ _ _ "[''py'']" "[''py'', ''py'']"
        "[''py'', ''go'']" "[''go'', ''py'', ''go'']"] w s by blast
  moreover have "ats_score (join_words [''py'']) (join_words [''py'', ''go'']) = Finite 50"
  proof -
    have "normalize_words (join_words [''py'']) = [''py'']"
      "normalize_words (join_words [''py'', ''go'']) = [''py'', ''go'']"
      using w by (simp_all add: normalize_join_words lower_examples)
    then show ?thesis by (simp add: ats_score_cards score_1_2)
  qed
  ultimately show ?thesis using l w s by simp
qed

text \<open>
  C4, as the claim states it, fails where Python's case mapping turns a character that is
  not an ASCII letter into ASCII letters: \<^verbatim>\<open>"Ma\xdf".upper()\<close> is \<^verbatim>\<open>"MASS"\<close>. The text
  \<^verbatim>\<open>"Ma\xdf"\<close> (\<open>sharp_s_text\<close>) has the token \<^verbatim>\<open>ma\<close>, and its upper case has the token \<^verbatim>\<open>mass\<close>.
\<close>

theorem ats_score_upper_sharp_s:
  "normalize_words sharp_s_text = [''ma'']
   \<and> normalize_words ''MASS'' = [''mass'']
   \<and> ats_score ''ma'' sharp_s_text = Finite 100
   \<and> ats_score ''ma'' ''MASS'' = Finite 0
   \<and> ats_score ''ma'' sharp_s_text \<noteq> ats_score ''ma'' ''MASS''"
proof -
  have a: "normalize_words sharp_s_text = [''ma'']" by code_simp
  have b: "normalize_words ''MASS'' = [''mass'']" by code_simp
  have c: "normalize_words ''ma'' = [''ma'']" by code_simp
  have d: "ats_score ''ma'' sharp_s_text = Finite 100"
    by (simp add: ats_score_cards a c score_1_1)
  have e: "ats_score ''ma'' ''MASS'' = Finite 0"
    by (simp add: ats_score_cards b c score_0_n)
  show ?thesis using a b d e by simp
qed

end
